theory Spec2Isabelle
  imports Complex_Main "HOL-Library.Signed_Division"
begin

section \<open>Conventions of the embedding\<close>

text \<open>
  The C++ type \<open>int\<close> is modelled by \<open>int\<close>; the quantities of the distribution
  plan and of the messages are element counts, rank counts and indices bounded by
  them, so no product or sum leaves the range of a 32-bit \<open>int\<close> as long as the
  table size does not.  C++ \<open>/\<close> and
  \<open>%\<close> truncate towards zero: they are \<open>sdiv\<close> and \<open>smod\<close>.  A failed
  \<open>assert\<close> aborts the process; a function that contains one returns an
  \<open>option\<close>, and \<open>None\<close> is the abort.  A \<open>std::vector\<close> is a list, read at
  an \<open>int\<close> index through \<open>nat\<close>; a \<open>std::map\<close> is an association list
  kept in key order, which is the order a range-for visits it in.  The size
  computations of tasking.cpp and transformations.cpp, which do leave the range of
  \<open>int\<close> and which round, have their own arithmetic below.
\<close>

text \<open>An element table is the list of its coordinate vectors; only its size and
  \<open>get_coords\<close> are used here.\<close>

type_synonym element_table = "int list list"

definition table_size :: "element_table \<Rightarrow> int" where
  "table_size table = int (length table)"

text \<open>\<open>std::map::emplace\<close>: nothing happens when the key is present, otherwise the
  entry is inserted at its place in key order.\<close>

definition emplace :: "int \<Rightarrow> 'v \<Rightarrow> (int \<times> 'v) list \<Rightarrow> (int \<times> 'v) list" where
  "emplace k v m = (if k \<in> fst ` set m then m else insort_key fst (k, v) m)"

section \<open>Distribution plan (distribution.cpp)\<close>

record element_subgrid =
  row_start :: int
  row_stop :: int
  col_start :: int
  col_stop :: int

definition nrows :: "element_subgrid \<Rightarrow> int" where
  "nrows g = row_stop g - row_start g + 1"

definition ncols :: "element_subgrid \<Rightarrow> int" where
  "ncols g = col_stop g - col_start g + 1"

type_synonym distribution_plan = "(int \<times> element_subgrid) list"

text \<open>
  \<open>std::sqrt(n) == std::floor(std::sqrt(n))\<close> on an \<open>int\<close> converted to
  \<open>double\<close>: IEEE square root is correctly rounded and an \<open>int\<close> has at most 31
  bits, so the root of a non-square is never an integer after rounding and the test
  holds exactly for the perfect squares.  For a negative argument the root is NaN and
  the comparison is false.
\<close>

fun has_root_upto :: "nat \<Rightarrow> int \<Rightarrow> bool" where
  "has_root_upto 0 n = (n = 0)"
| "has_root_upto (Suc k) n = (int (Suc k) * int (Suc k) = n \<or> has_root_upto k n)"

definition is_perfect_square :: "int \<Rightarrow> bool" where
  "is_perfect_square n = has_root_upto (nat n) n"

definition num_effective_ranks :: "int \<Rightarrow> int" where
  "num_effective_ranks num_ranks =
     (if is_perfect_square num_ranks \<or> num_ranks smod 2 = 0 then num_ranks
      else num_ranks - 1)"

text \<open>
  \<open>get_num_subgrid_cols\<close> is declared in distribution.hpp, which is not among the
  sources; \<open>get_subgrid\<close> takes it as the parameter \<open>num_subgrid_cols_of\<close>.
\<close>

definition get_subgrid ::
  "(int \<Rightarrow> int) \<Rightarrow> int \<Rightarrow> int \<Rightarrow> element_table \<Rightarrow> element_subgrid option" where
  "get_subgrid num_subgrid_cols_of num_ranks my_rank table =
     (if \<not> num_ranks > 0 then None
      else if \<not> (num_ranks smod 2 = 0 \<or> num_ranks = 1 \<or> is_perfect_square num_ranks)
        then None
      else if \<not> my_rank \<ge> 0 then None
      else if \<not> my_rank < num_ranks then None
      else if \<not> table_size table > num_ranks then None
      else if num_ranks = 1 then
        Some \<lparr>row_start = 0, row_stop = table_size table - 1,
              col_start = 0, col_stop = table_size table - 1\<rparr>
      else
        let num_subgrid_cols = num_subgrid_cols_of num_ranks;
            num_subgrid_rows = num_ranks sdiv num_subgrid_cols;
            grid_row_index = my_rank sdiv num_subgrid_cols;
            grid_col_index = my_rank smod num_subgrid_cols;
            left_over_cols = table_size table smod num_subgrid_cols;
            subgrid_width = table_size table sdiv num_subgrid_cols;
            left_over_rows = table_size table smod num_subgrid_rows;
            subgrid_height = table_size table sdiv num_subgrid_rows;
            start_col = grid_col_index * subgrid_width + min grid_col_index left_over_cols;
            start_row = grid_row_index * subgrid_height + min grid_row_index left_over_rows;
            stop_col = start_col + subgrid_width
                       + (if left_over_cols > grid_col_index then 1 else 0) - 1;
            stop_row = start_row + subgrid_height
                       + (if left_over_rows > grid_row_index then 1 else 0) - 1
        in Some \<lparr>row_start = start_row, row_stop = stop_row,
                 col_start = start_col, col_stop = stop_col\<rparr>)"

text \<open>The body of the loop of \<open>get_plan\<close>: a failed assertion of
  \<open>get_subgrid\<close> ends the run.\<close>

definition get_plan_step ::
  "(int \<Rightarrow> int) \<Rightarrow> int \<Rightarrow> element_table \<Rightarrow> int
    \<Rightarrow> distribution_plan option \<Rightarrow> distribution_plan option" where
  "get_plan_step num_subgrid_cols_of num_splits table i plan =
     (case plan of
        None \<Rightarrow> None
      | Some p \<Rightarrow>
          (case get_subgrid num_subgrid_cols_of num_splits i table of
             None \<Rightarrow> None
           | Some g \<Rightarrow> Some (emplace i g p)))"

definition get_plan ::
  "(int \<Rightarrow> int) \<Rightarrow> int \<Rightarrow> element_table \<Rightarrow> distribution_plan option" where
  "get_plan num_subgrid_cols_of num_ranks table =
     (if \<not> num_ranks > 0 then None
      else if \<not> table_size table > num_ranks then None
      else
        let num_splits = num_effective_ranks num_ranks
        in fold (get_plan_step num_subgrid_cols_of num_splits table)
             [0..num_splits - 1] (Some []))"

text \<open>
  Modelled from the spec: \<open>get_num_subgrid_cols\<close> (distribution.hpp is not among the
  sources).  The spec: ``Factor \<open>effective_ranks\<close> into \<open>rows \<times> cols\<close> with
  \<open>cols = round(sqrt(effective_ranks))\<close> adjusted until it evenly divides (falls back
  toward 1 column for non-square counts)''.  The theorems below do not use this
  definition: they hold for every function that returns a positive divisor of the
  rank count.  It instantiates them at concrete inputs.
\<close>

fun floor_sqrt_upto :: "nat \<Rightarrow> int \<Rightarrow> int" where
  "floor_sqrt_upto 0 n = 0"
| "floor_sqrt_upto (Suc k) n =
     (if int (Suc k) * int (Suc k) \<le> n then int (Suc k) else floor_sqrt_upto k n)"

definition round_sqrt :: "int \<Rightarrow> int" where
  "round_sqrt n = (let r = floor_sqrt_upto (nat n) n in if n - r * r \<le> r then r else r + 1)"

fun largest_divisor_upto :: "nat \<Rightarrow> int \<Rightarrow> int" where
  "largest_divisor_upto 0 n = 1"
| "largest_divisor_upto (Suc k) n =
     (if n mod int (Suc k) = 0 then int (Suc k) else largest_divisor_upto k n)"

definition get_num_subgrid_cols :: "int \<Rightarrow> int" where
  "get_num_subgrid_cols num_ranks = largest_divisor_upto (nat (round_sqrt num_ranks)) num_ranks"

text \<open>Notions used to state the tiling: membership of an element pair in a subgrid,
  and the bounds of band \<open>b\<close> when \<open>n\<close> indices are dealt to \<open>k\<close> bands, the first
  \<open>n mod k\<close> of them one index longer.\<close>

definition in_subgrid :: "element_subgrid \<Rightarrow> int \<Rightarrow> int \<Rightarrow> bool" where
  "in_subgrid g row col \<longleftrightarrow>
     row_start g \<le> row \<and> row \<le> row_stop g \<and> col_start g \<le> col \<and> col \<le> col_stop g"

definition band_start :: "int \<Rightarrow> int \<Rightarrow> int \<Rightarrow> int" where
  "band_start n k b = b * (n div k) + min b (n mod k)"

definition band_stop :: "int \<Rightarrow> int \<Rightarrow> int \<Rightarrow> int" where
  "band_stop n k b = band_start n k b + n div k + (if n mod k > b then 1 else 0) - 1"

definition band_subgrid :: "int \<Rightarrow> int \<Rightarrow> int \<Rightarrow> int \<Rightarrow> element_subgrid" where
  "band_subgrid n num_rows num_cols i =
     \<lparr>row_start = band_start n num_rows (i div num_cols),
      row_stop = band_stop n num_rows (i div num_cols),
      col_start = band_start n num_cols (i mod num_cols),
      col_stop = band_stop n num_cols (i mod num_cols)\<rparr>"

section \<open>Message schedule (distribution.cpp)\<close>

text \<open>\<open>grid_limits\<close>, \<open>message_direction\<close> and \<open>message\<close> are declared in
  distribution.hpp; their fields are the ones distribution.cpp reads and writes.  The
  field \<open>range\<close> of a message is \<open>msg_range\<close> here.\<close>

record grid_limits =
  start :: int
  stop :: int

datatype message_direction = send | receive

record message =
  message_dir :: message_direction
  target :: int
  msg_range :: grid_limits

type_synonym rows_to_range = "(int \<times> grid_limits) list"

text \<open>
  \<open>find_column_dependencies\<close>.  The inner loop carries \<open>row_start\<close> and the vector
  of maps, the outer loop \<open>col_start\<close> and the vector (the two locals are primed here,
  the plain names being fields of \<open>element_subgrid\<close>).  Every index read is a loop
  counter below the size of the vector it reads.
\<close>

definition find_dependencies_row_step ::
  "int list \<Rightarrow> int \<Rightarrow> int \<Rightarrow> int \<Rightarrow> int
    \<Rightarrow> int \<times> rows_to_range list \<Rightarrow> int \<times> rows_to_range list" where
  "find_dependencies_row_step row_boundaries c col_start' column_end r st =
     (case st of (row_start', column_dependencies) \<Rightarrow>
        let row_end = row_boundaries ! nat r;
            column_dependencies' =
              (if (col_start' \<ge> row_start' \<and> col_start' \<le> row_end) \<or>
                  (row_start' \<ge> col_start' \<and> row_start' \<le> column_end)
               then column_dependencies
                      [nat c := emplace r \<lparr>start = max row_start' col_start',
                                            stop = min row_end column_end\<rparr>
                                  (column_dependencies ! nat c)]
               else column_dependencies)
        in (row_end + 1, column_dependencies'))"

definition find_dependencies_col_step ::
  "int list \<Rightarrow> int list \<Rightarrow> int
    \<Rightarrow> int \<times> rows_to_range list \<Rightarrow> int \<times> rows_to_range list" where
  "find_dependencies_col_step row_boundaries column_boundaries c st =
     (case st of (col_start', column_dependencies) \<Rightarrow>
        let column_end = column_boundaries ! nat c;
            column_dependencies' =
              snd (fold (find_dependencies_row_step row_boundaries c col_start' column_end)
                     [0..int (length row_boundaries) - 1] (0, column_dependencies))
        in (column_end + 1, column_dependencies'))"

definition find_column_dependencies :: "int list \<Rightarrow> int list \<Rightarrow> rows_to_range list" where
  "find_column_dependencies row_boundaries column_boundaries =
     snd (fold (find_dependencies_col_step row_boundaries column_boundaries)
            [0..int (length column_boundaries) - 1]
            (0, replicate (length column_boundaries) []))"

text \<open>The class \<open>round_robin_wheel\<close>; its member \<open>size\<close> is \<open>wheel_size\<close>.  \<open>spin\<close>
  returns the index it had and the wheel it leaves.\<close>

record round_robin_wheel =
  wheel_size :: int
  current_index :: int

definition spin :: "round_robin_wheel \<Rightarrow> int \<times> round_robin_wheel" where
  "spin wheel =
     (let n = current_index wheel;
          wheel' = wheel\<lparr>current_index := current_index wheel + 1\<rparr>;
          wheel'' = (if current_index wheel' = wheel_size wheel'
                     then wheel'\<lparr>current_index := 0\<rparr> else wheel')
      in (n, wheel''))"

text \<open>\<open>messages[i].push_back(m)\<close>; an index outside the vector is undefined
  behaviour in C++ and \<open>None\<close> here.\<close>

definition push_back_at :: "int \<Rightarrow> 'a \<Rightarrow> 'a list list \<Rightarrow> 'a list list option" where
  "push_back_at i x xss =
     (if 0 \<le> i \<and> i < int (length xss) then Some (xss[nat i := xss ! nat i @ [x]])
      else None)"

text \<open>
  The body of the innermost loop of \<open>dependencies_to_messages\<close>, for subgrid column
  \<open>c\<close>, the dependency \<open>(row, limits)\<close> and the receiving subgrid row \<open>r\<close>.  The
  state is the vector of wheels and the vector of message lists.  The lambda binds
  \<open>row_round_robin_wheels[row]\<close> whether or not it spins it, so a \<open>row\<close> outside the
  vector is undefined behaviour (\<open>None\<close>).
\<close>

definition message_step ::
  "int \<Rightarrow> int \<Rightarrow> int \<Rightarrow> grid_limits \<Rightarrow> int
    \<Rightarrow> (round_robin_wheel list \<times> message list list) option
    \<Rightarrow> (round_robin_wheel list \<times> message list list) option" where
  "message_step num_cols c row limits r st =
     (case st of
        None \<Rightarrow> None
      | Some (row_round_robin_wheels, messages) \<Rightarrow>
          let receiver_rank = r * num_cols + c
          in if \<not> (0 \<le> row \<and> row < int (length row_round_robin_wheels)) then None
             else
               let (sender_rank, wheels') =
                     (if row = r then (receiver_rank, row_round_robin_wheels)
                      else let (n, wheel') = spin (row_round_robin_wheels ! nat row)
                           in (row * num_cols + n,
                               row_round_robin_wheels[nat row := wheel']));
                   incoming_message =
                     \<lparr>message_dir = receive, target = sender_rank, msg_range = limits\<rparr>;
                   outgoing_message =
                     \<lparr>message_dir = send, target = receiver_rank, msg_range = limits\<rparr>
               in case push_back_at receiver_rank incoming_message messages of
                    None \<Rightarrow> None
                  | Some messages' \<Rightarrow>
                      (case push_back_at sender_rank outgoing_message messages' of
                         None \<Rightarrow> None
                       | Some messages'' \<Rightarrow> Some (wheels', messages'')))"

definition dependencies_to_messages ::
  "rows_to_range list \<Rightarrow> int list \<Rightarrow> int list \<Rightarrow> message list list option" where
  "dependencies_to_messages col_dependencies row_boundaries column_boundaries =
     (if \<not> length col_dependencies = length column_boundaries then None
      else
        let num_rows = int (length row_boundaries);
            num_cols = int (length column_boundaries);
            row_round_robin_wheels =
              replicate (length row_boundaries) \<lparr>wheel_size = num_cols, current_index = 0\<rparr>;
            messages = replicate (length row_boundaries * length column_boundaries) []
        in map_option snd
             (fold (\<lambda>c. fold (\<lambda>(row, limits).
                             fold (message_step num_cols c row limits) [0..num_rows - 1])
                          (col_dependencies ! nat c))
                [0..int (length col_dependencies) - 1]
                (Some (row_round_robin_wheels, messages))))"

text \<open>\<open>generate_messages\<close>.  \<open>plan.at(k)\<close> throws when the plan has no rank \<open>k\<close>.\<close>

definition generate_messages ::
  "(int \<Rightarrow> int) \<Rightarrow> distribution_plan \<Rightarrow> message list list option" where
  "generate_messages num_subgrid_cols_of plan =
     (let num_cols = num_subgrid_cols_of (int (length plan))
      in if \<not> int (length plan) smod num_cols = 0 then None
         else
           let num_rows = int (length plan) sdiv num_cols
           in case those (map (\<lambda>i. map_option row_stop (map_of plan (i * num_cols)))
                            [0..num_rows - 1]) of
                None \<Rightarrow> None
              | Some row_boundaries \<Rightarrow>
                  (case those (map (\<lambda>i. map_option col_stop (map_of plan i))
                                 [0..num_cols - 1]) of
                     None \<Rightarrow> None
                   | Some col_boundaries \<Rightarrow>
                       dependencies_to_messages
                         (find_column_dependencies row_boundaries col_boundaries)
                         row_boundaries col_boundaries))"

text \<open>
  \<open>exchange_results\<close> runs the list of its rank from the front.  A message whose
  target is the rank itself goes to \<open>copy_to_input\<close>, which copies for a send and
  does nothing for a receive: the rank moves on alone.  Any other message goes to
  \<open>dispatch_message\<close>: a blocking \<open>MPI_Send\<close> to, or \<open>MPI_Recv\<close> from, the target.
  Under rendezvous semantics a send and the receive it meets complete together, when
  each is the next message of its rank; MPI matches them by the ranks alone.  A
  configuration is the list, by rank, of the messages still to run.
\<close>

inductive replay_step :: "message list list \<Rightarrow> message list list \<Rightarrow> bool" where
  local_copy:
    "p < length cfg \<Longrightarrow> cfg ! p = m # rest \<Longrightarrow> target m = int p
      \<Longrightarrow> replay_step cfg (cfg[p := rest])"
| transfer:
    "s < length cfg \<Longrightarrow> t < length cfg \<Longrightarrow> s \<noteq> t
      \<Longrightarrow> cfg ! s = ms # rest_s \<Longrightarrow> message_dir ms = send \<Longrightarrow> target ms = int t
      \<Longrightarrow> cfg ! t = mt # rest_t \<Longrightarrow> message_dir mt = receive \<Longrightarrow> target mt = int s
      \<Longrightarrow> replay_step cfg (cfg[s := rest_s, t := rest_t])"

definition all_consumed :: "message list list \<Rightarrow> bool" where
  "all_consumed cfg \<longleftrightarrow> list_all (\<lambda>l. l = []) cfg"

text \<open>
  Notions used to state the properties of the schedule.  A list of inclusive stop
  indices delimits consecutive bands: band \<open>r\<close> runs from one past the stop of band
  \<open>r - 1\<close> (from 0 for the first band) to its own stop.  A stop index belongs to its
  band, so every band is non-empty: the stops increase strictly and the first is at
  least 0.
\<close>

definition band_first :: "int list \<Rightarrow> int \<Rightarrow> int" where
  "band_first bs r = (if r \<le> 0 then 0 else bs ! nat (r - 1) + 1)"

definition band_members :: "int list \<Rightarrow> int \<Rightarrow> int set" where
  "band_members bs r = {band_first bs r .. bs ! nat r}"

definition bands_nonempty :: "int list \<Rightarrow> bool" where
  "bands_nonempty bs \<longleftrightarrow> sorted_wrt (<) (-1 # bs)"

definition overlap_limits :: "int list \<Rightarrow> int list \<Rightarrow> int \<Rightarrow> int \<Rightarrow> grid_limits" where
  "overlap_limits rb cb c r =
     \<lparr>start = max (band_first rb r) (band_first cb c), stop = min (rb ! nat r) (cb ! nat c)\<rparr>"

definition overlap_test :: "int list \<Rightarrow> int list \<Rightarrow> int \<Rightarrow> int \<Rightarrow> bool" where
  "overlap_test rb cb c r \<longleftrightarrow>
     (band_first cb c \<ge> band_first rb r \<and> band_first cb c \<le> rb ! nat r) \<or>
     (band_first rb r \<ge> band_first cb c \<and> band_first rb r \<le> cb ! nat c)"

definition column_dependency :: "int list \<Rightarrow> int list \<Rightarrow> int \<Rightarrow> rows_to_range" where
  "column_dependency rb cb c =
     map (\<lambda>r. (r, overlap_limits rb cb c r))
       (filter (overlap_test rb cb c) [0..int (length rb) - 1])"

text \<open>
  Notions used to state and prove the properties of the message lists.  A work item
  \<open>(c, row, limits, r)\<close> is one pass through the innermost loop of
  \<open>dependencies_to_messages\<close>; \<open>work_items\<close> lists them in the order the three loops
  visit them.  An assignment \<open>(sender, receiver, limits)\<close> is what one pass decides.
  \<open>rank_messages p\<close> are the messages a list of assignments puts on the list of rank
  \<open>p\<close>: the receive on the receiver, then the send on the sender.
  \<open>spins_before row items\<close> counts the items that spin the wheel of \<open>row\<close>, those
  with this dependency row and another receiving row.  \<open>assign_senders\<close> and
  \<open>assignments\<close> follow the wheels through the items; \<open>schedule n\<close> is the vector of
  the lists of \<open>n\<close> ranks.  For the replay, what is still to run is a list of pending
  units in schedule order: a transfer (its send and its receive still to run), or one
  half of a local copy; \<open>view\<close> projects it to the ranks.  \<open>remaining\<close> counts the
  messages still to run; \<open>local_ready\<close> and \<open>transfer_ready\<close> say which step a
  configuration can take.
\<close>

type_synonym work_item = "int \<times> int \<times> grid_limits \<times> int"
type_synonym assignment = "int \<times> int \<times> grid_limits"

definition work_items :: "rows_to_range list \<Rightarrow> int \<Rightarrow> work_item list" where
  "work_items col_dependencies num_rows =
     concat (map (\<lambda>c. concat (map (\<lambda>(row, limits). map (\<lambda>r. (c, row, limits, r)) [0..num_rows - 1])
                                  (col_dependencies ! nat c)))
               [0..int (length col_dependencies) - 1])"

fun assign_senders :: "int \<Rightarrow> round_robin_wheel list \<Rightarrow> work_item list \<Rightarrow> assignment list" where
  "assign_senders num_cols wheels [] = []"
| "assign_senders num_cols wheels ((c, row, limits, r) # items) =
     (if row = r
      then (r * num_cols + c, r * num_cols + c, limits) # assign_senders num_cols wheels items
      else (row * num_cols + current_index (wheels ! nat row), r * num_cols + c, limits)
           # assign_senders num_cols (wheels[nat row := snd (spin (wheels ! nat row))]) items)"

definition assignment_messages :: "int \<Rightarrow> assignment \<Rightarrow> message list" where
  "assignment_messages p a =
     (case a of (sender, receiver, limits) \<Rightarrow>
        (if receiver = p
         then [\<lparr>message_dir = receive, target = sender, msg_range = limits\<rparr>] else [])
        @ (if sender = p
           then [\<lparr>message_dir = send, target = receiver, msg_range = limits\<rparr>] else []))"

definition rank_messages :: "int \<Rightarrow> assignment list \<Rightarrow> message list" where
  "rank_messages p assignments = concat (map (assignment_messages p) assignments)"

definition spins_before :: "int \<Rightarrow> work_item list \<Rightarrow> nat" where
  "spins_before row items = length (filter (\<lambda>(c, row', limits, r). row' = row \<and> row' \<noteq> r) items)"

definition wheels_ok :: "int \<Rightarrow> round_robin_wheel list \<Rightarrow> bool" where
  "wheels_ok num_cols wheels \<longleftrightarrow>
     (\<forall>w\<in>set wheels. wheel_size w = num_cols \<and> 0 \<le> current_index w \<and> current_index w < num_cols)"

definition item_ok :: "int \<Rightarrow> int \<Rightarrow> work_item \<Rightarrow> bool" where
  "item_ok num_rows num_cols item \<longleftrightarrow>
     (case item of (c, row, limits, r) \<Rightarrow>
        0 \<le> c \<and> c < num_cols \<and> 0 \<le> row \<and> row < num_rows \<and> 0 \<le> r \<and> r < num_rows)"

definition wheels_start :: "nat \<Rightarrow> int \<Rightarrow> round_robin_wheel list" where
  "wheels_start num_rows num_cols = replicate num_rows \<lparr>wheel_size = num_cols, current_index = 0\<rparr>"

definition assignments :: "rows_to_range list \<Rightarrow> int list \<Rightarrow> int list \<Rightarrow> assignment list" where
  "assignments col_dependencies row_boundaries column_boundaries =
     assign_senders (int (length column_boundaries))
       (wheels_start (length row_boundaries) (int (length column_boundaries)))
       (work_items col_dependencies (int (length row_boundaries)))"

definition receiver_key :: "int \<Rightarrow> work_item \<Rightarrow> int \<times> grid_limits" where
  "receiver_key nc item = (case item of (c, row, limits, r) \<Rightarrow> (r * nc + c, limits))"

definition schedule :: "nat \<Rightarrow> assignment list \<Rightarrow> message list list" where
  "schedule n as = map (\<lambda>p. rank_messages (int p) as) [0..<n]"

definition assignments_ok :: "int \<Rightarrow> assignment list \<Rightarrow> bool" where
  "assignments_ok n as \<longleftrightarrow>
     (\<forall>a\<in>set as. 0 \<le> fst a \<and> fst a < n \<and> 0 \<le> fst (snd a) \<and> fst (snd a) < n)
     \<and> distinct (map (\<lambda>a. (fst (snd a), snd (snd a))) as)"

datatype pending = Transfer int int grid_limits | Local_receive int grid_limits
  | Local_send int grid_limits

fun pending_messages :: "int \<Rightarrow> pending \<Rightarrow> message list" where
  "pending_messages p (Transfer s t g) =
     (if t = p then [\<lparr>message_dir = receive, target = s, msg_range = g\<rparr>]
      else if s = p then [\<lparr>message_dir = send, target = t, msg_range = g\<rparr>] else [])"
| "pending_messages p (Local_receive q g) =
     (if q = p then [\<lparr>message_dir = receive, target = q, msg_range = g\<rparr>] else [])"
| "pending_messages p (Local_send q g) =
     (if q = p then [\<lparr>message_dir = send, target = q, msg_range = g\<rparr>] else [])"

fun pending_of :: "assignment \<Rightarrow> pending list" where
  "pending_of (s, t, g) = (if s = t then [Local_receive s g, Local_send s g] else [Transfer s t g])"

fun pending_ok :: "int \<Rightarrow> pending \<Rightarrow> bool" where
  "pending_ok n (Transfer s t g) \<longleftrightarrow> 0 \<le> s \<and> s < n \<and> 0 \<le> t \<and> t < n \<and> s \<noteq> t"
| "pending_ok n (Local_receive q g) \<longleftrightarrow> 0 \<le> q \<and> q < n"
| "pending_ok n (Local_send q g) \<longleftrightarrow> 0 \<le> q \<and> q < n"

definition rank_view :: "pending list \<Rightarrow> int \<Rightarrow> message list" where
  "rank_view pend p = concat (map (pending_messages p) pend)"

definition view :: "nat \<Rightarrow> pending list \<Rightarrow> message list list" where
  "view n pend = map (\<lambda>p. rank_view pend (int p)) [0..<n]"

definition remaining :: "message list list \<Rightarrow> nat" where
  "remaining cfg = sum_list (map length cfg)"

definition local_ready :: "message list list \<Rightarrow> bool" where
  "local_ready cfg \<longleftrightarrow> (\<exists>p m rest. p < length cfg \<and> cfg ! p = m # rest \<and> target m = int p)"

definition transfer_ready :: "message list list \<Rightarrow> bool" where
  "transfer_ready cfg \<longleftrightarrow>
     (\<exists>s t ms rest_s mt rest_t. s < length cfg \<and> t < length cfg \<and> s \<noteq> t
        \<and> cfg ! s = ms # rest_s \<and> message_dir ms = send \<and> target ms = int t
        \<and> cfg ! t = mt # rest_t \<and> message_dir mt = receive \<and> target mt = int s
        \<and> msg_range ms = msg_range mt)"

section \<open>Machine arithmetic of the size computations\<close>

text \<open>
  The functions of tasking.cpp and transformations.cpp compute sizes in bytes and
  megabytes: their products leave the range of an \<open>int\<close>, and what they return depends
  on the rounding of \<open>double\<close>.  They are modelled with the arithmetic of the x86-64
  targets the project is built for.  An \<open>int\<close> has 32 bits, a \<open>long\<close> and a
  \<open>std::size_t\<close> 64 bits.  Signed overflow, which C++ leaves undefined, is the
  two's-complement wrap-around; the conversion to an unsigned type is the residue.
\<close>

definition int_min :: int where
  "int_min = - 2147483648"

definition int_max :: int where
  "int_max = 2147483647"

definition wrap_int :: "int \<Rightarrow> int" where
  "wrap_int x = (x + 2147483648) mod 4294967296 - 2147483648"

definition wrap_long :: "int \<Rightarrow> int" where
  "wrap_long x = (x + 9223372036854775808) mod 18446744073709551616 - 9223372036854775808"

definition to_size_t :: "int \<Rightarrow> int" where
  "to_size_t x = x mod 18446744073709551616"

text \<open>
  A \<open>double\<close> is an IEEE 754 binary64 number.  \<open>Finite m e\<close> is the number
  \<open>m * 2^e\<close>; a number has several such pairs, and every operation below depends on
  the number only.  The sign of a zero is not kept: it only shows in a division by zero,
  and the functions modelled divide by a positive count.
\<close>

datatype double = Finite int int | PInf | NInf | NaN

text \<open>The number a finite \<open>double\<close> stands for.\<close>

definition dyadic :: "int \<Rightarrow> int \<Rightarrow> real" where
  "dyadic m e = (if 0 \<le> e then real_of_int m * 2 ^ nat e else real_of_int m / 2 ^ nat (- e))"

text \<open>The number of binary digits of a positive integer.\<close>

function bit_length :: "int \<Rightarrow> nat" where
  "bit_length a = (if a \<le> 0 then 0 else Suc (bit_length (a div 2)))"
  by pat_completeness auto
termination
  by (relation "measure nat") auto

text \<open>
  Rounding to nearest, ties to even.  \<open>round_shift a k\<close> is \<open>a / 2^k\<close> rounded to an
  integer, for \<open>a \<ge> 0\<close>.  \<open>round_magnitude a e\<close> rounds \<open>a * 2^e\<close> to the format: 53
  binary digits, and no digit below \<open>2^-1074\<close>, the smallest subnormal number.
  \<open>round_double m e\<close> is the \<open>double\<close> nearest to \<open>m * 2^e\<close>, for any integer \<open>m\<close>: an
  infinity when the rounded magnitude reaches \<open>2^1024\<close>.
\<close>

definition round_shift :: "int \<Rightarrow> nat \<Rightarrow> int" where
  "round_shift a k =
     (let q = a div 2 ^ k;
          r = a mod 2 ^ k
      in if 2 * r < 2 ^ k then q
         else if 2 * r > 2 ^ k then q + 1
         else if even q then q else q + 1)"

definition round_magnitude :: "int \<Rightarrow> int \<Rightarrow> int \<times> int" where
  "round_magnitude a e =
     (let k = max (int (bit_length a) - 53) (- 1074 - e)
      in if k \<le> 0 then (a, e) else (round_shift a (nat k), e + k))"

definition round_double :: "int \<Rightarrow> int \<Rightarrow> double" where
  "round_double m e =
     (if m = 0 then Finite 0 0
      else case round_magnitude \<bar>m\<bar> e of
             (a, e') \<Rightarrow>
               if int (bit_length a) + e' > 1024 then (if m < 0 then NInf else PInf)
               else Finite (if m < 0 then - a else a) e')"

text \<open>
  \<open>round_quotient p q e\<close> is the \<open>double\<close> nearest to \<open>p / q * 2^e\<close>, for \<open>q > 0\<close>:
  the quotient is taken to at least 55 binary digits, with one more digit that is set
  when the division leaves a remainder.
\<close>

definition round_quotient :: "int \<Rightarrow> int \<Rightarrow> int \<Rightarrow> double" where
  "round_quotient p q e =
     (if p = 0 then Finite 0 0
      else
        let a = \<bar>p\<bar>;
            s = nat (int (bit_length q) + 55 - int (bit_length a));
            n = a * 2 ^ s;
            digits = 2 * (n div q) + (if n mod q = 0 then 0 else 1)
        in round_double (if p < 0 then - digits else digits) (e - int s - 1))"

text \<open>The conversion of an integer, of any of the integer types, to \<open>double\<close>.\<close>

definition double_of_int :: "int \<Rightarrow> double" where
  "double_of_int n = round_double n 0"

text \<open>The literal \<open>1e-6\<close>: the \<open>double\<close> nearest to one millionth.\<close>

definition one_millionth :: double where
  "one_millionth = Finite 4722366482869645 (- 72)"

definition dsign :: "double \<Rightarrow> int" where
  "dsign x = (case x of Finite m e \<Rightarrow> sgn m | PInf \<Rightarrow> 1 | NInf \<Rightarrow> - 1 | NaN \<Rightarrow> 0)"

definition infinity_of :: "int \<Rightarrow> double" where
  "infinity_of s = (if s = 0 then NaN else if 0 < s then PInf else NInf)"

text \<open>The product, the sum and the quotient of two \<open>double\<close>s.\<close>

definition dmul :: "double \<Rightarrow> double \<Rightarrow> double" where
  "dmul x y =
     (case (x, y) of
        (Finite m e, Finite n f) \<Rightarrow> round_double (m * n) (e + f)
      | _ \<Rightarrow> infinity_of (dsign x * dsign y))"

definition dadd :: "double \<Rightarrow> double \<Rightarrow> double" where
  "dadd x y =
     (case (x, y) of
        (Finite m e, Finite n f) \<Rightarrow>
          (let e0 = min e f
           in round_double (m * 2 ^ nat (e - e0) + n * 2 ^ nat (f - e0)) e0)
      | (Finite m e, _) \<Rightarrow> y
      | (_, Finite n f) \<Rightarrow> x
      | _ \<Rightarrow> (if x = y then x else NaN))"

definition ddiv :: "double \<Rightarrow> double \<Rightarrow> double" where
  "ddiv x y =
     (case (x, y) of
        (Finite m e, Finite n f) \<Rightarrow>
          (if n = 0 then infinity_of (sgn m)
           else round_quotient (sgn n * m) \<bar>n\<bar> (e - f))
      | (Finite m e, NaN) \<Rightarrow> NaN
      | (Finite m e, _) \<Rightarrow> Finite 0 0
      | (NaN, _) \<Rightarrow> NaN
      | (_, Finite n f) \<Rightarrow> infinity_of (dsign x * (if n < 0 then - 1 else 1))
      | _ \<Rightarrow> NaN)"

text \<open>The comparison \<open>x > 0\<close>.\<close>

definition dpositive :: "double \<Rightarrow> bool" where
  "dpositive x = (case x of Finite m e \<Rightarrow> 0 < m | PInf \<Rightarrow> True | _ \<Rightarrow> False)"

text \<open>\<open>std::ceil\<close>: the least integer not below the number, which is a \<open>double\<close>.\<close>

definition dceil :: "double \<Rightarrow> double" where
  "dceil x =
     (case x of
        Finite m e \<Rightarrow> if 0 \<le> e then x else Finite (- ((- m) div 2 ^ nat (- e))) 0
      | _ \<Rightarrow> x)"

text \<open>
  The conversion of a \<open>double\<close> to \<open>int\<close> drops the fraction.  Out of the range of
  \<open>int\<close>, and for an infinity or a NaN, C++ leaves the conversion undefined; the
  conversion instruction of the x86-64 returns \<open>INT_MIN\<close> there, and so does the model.
\<close>

definition double_to_int :: "double \<Rightarrow> int" where
  "double_to_int x =
     (case x of
        Finite m e \<Rightarrow>
          (let t = (if 0 \<le> e then m * 2 ^ nat e
                    else if 0 \<le> m then m div 2 ^ nat (- e)
                    else - ((- m) div 2 ^ nat (- e)))
           in if int_min \<le> t \<and> t \<le> int_max then t else int_min)
      | _ \<Rightarrow> int_min)"

text \<open>
  \<open>std::pow\<close> of two \<open>int\<close>s.  The library function returns the power itself
  whenever that is a \<open>double\<close>, which all integers below \<open>2^53\<close> and all powers of
  two in range are; elsewhere it is within one unit in the last place of the model's
  number, and the functions modelled convert such a power to \<open>int\<close>, where the
  difference does not show: the power is out of the range of \<open>int\<close>, or below 1.
\<close>

definition dpow :: "int \<Rightarrow> int \<Rightarrow> double" where
  "dpow b n =
     (if 0 \<le> n then round_double (b ^ nat n) 0
      else if b = 0 then PInf
      else round_quotient (sgn (b ^ nat (- n))) \<bar>b ^ nat (- n)\<bar> 0)"

text \<open>A \<open>double\<close> that is not negative and not a NaN.\<close>

definition dnonneg :: "double \<Rightarrow> bool" where
  "dnonneg x = (case x of Finite m e \<Rightarrow> 0 \<le> m | PInf \<Rightarrow> True | _ \<Rightarrow> False)"

text \<open>\<open>std::vector::operator[]\<close> and the checked element access of \<open>fk::vector\<close> and
  of the element table: a read outside the container is undefined or fails an
  assertion, and the run has no result.\<close>

definition read_at :: "'a list \<Rightarrow> int \<Rightarrow> 'a option" where
  "read_at xs i = (if 0 \<le> i \<and> i < int (length xs) then Some (xs ! nat i) else None)"

section \<open>Tasks (tasking.cpp)\<close>

text \<open>
  The template parameter \<open>P\<close> is \<open>float\<close> or \<open>double\<close>; only \<open>sizeof(P)\<close> is used.
  Of a PDE only the public counts and the level and degree of its dimensions are read
  (pde\_base.hpp).
\<close>

datatype precision = Float | Double

fun sizeof :: "precision \<Rightarrow> int" where
  "sizeof Float = 4"
| "sizeof Double = 8"

record dimension =
  get_level :: int
  get_degree :: int

record PDE =
  num_dims :: int
  num_sources :: int
  num_terms :: int
  get_dimensions :: "dimension list"

text \<open>
  The generic lambda \<open>get_MB\<close> of \<open>get_element_size_MB\<close> is called with an \<open>int\<close>
  and with a \<open>double\<close>.  With an \<open>int\<close>, \<open>num_elems * sizeof(P)\<close> is a product of
  \<open>std::size_t\<close>, converted to \<open>double\<close>; with a \<open>double\<close> it is a product of
  \<open>double\<close>s.
\<close>

definition get_MB_int :: "precision \<Rightarrow> int \<Rightarrow> double option" where
  "get_MB_int P num_elems =
     (if \<not> num_elems > 0 then None
      else let bytes = double_of_int (to_size_t (to_size_t num_elems * sizeof P));
               megabytes = dmul bytes one_millionth
           in Some megabytes)"

definition get_MB_double :: "precision \<Rightarrow> double \<Rightarrow> double option" where
  "get_MB_double P num_elems =
     (if \<not> dpositive num_elems then None
      else let bytes = dmul num_elems (double_of_int (sizeof P));
               megabytes = dmul bytes one_millionth
           in Some megabytes)"

text \<open>\<open>get_dimensions()[0]\<close> of a PDE without dimensions is undefined behaviour
  (\<open>None\<close>).\<close>

definition get_element_size_MB :: "precision \<Rightarrow> PDE \<Rightarrow> double option" where
  "get_element_size_MB P pde =
     (case get_dimensions pde of
        [] \<Rightarrow> None
      | d # _ \<Rightarrow>
          let degree = get_degree d;
              elem_size = double_to_int (dpow degree (num_dims pde));
              num_workspaces = min (wrap_int (num_dims pde - 1)) 2
          in case get_MB_int P (wrap_int (num_terms pde * elem_size)) of
               None \<Rightarrow> None
             | Some elem_reduction_space_MB \<Rightarrow>
                 (case get_MB_double P
                         (dmul (dmul (double_of_int num_workspaces)
                                  (double_of_int (num_terms pde)))
                            (double_of_int elem_size)) of
                    None \<Rightarrow> None
                  | Some elem_intermediate_space_MB \<Rightarrow>
                      (case get_MB_int P elem_size of
                         None \<Rightarrow> None
                       | Some elem_xy_space_MB \<Rightarrow>
                           Some (dadd (dadd elem_reduction_space_MB elem_intermediate_space_MB)
                                   elem_xy_space_MB))))"

definition get_num_tasks :: "precision \<Rightarrow> element_table \<Rightarrow> PDE \<Rightarrow> int \<Rightarrow> int \<Rightarrow> int option" where
  "get_num_tasks P table pde num_ranks rank_size_MB =
     (if \<not> num_ranks > 0 then None
      else if \<not> rank_size_MB > 0 then None
      else
        let num_elems = dmul (double_of_int (table_size table))
                          (double_of_int (table_size table))
        in case get_element_size_MB P pde of
             None \<Rightarrow> None
           | Some space_per_elem \<Rightarrow>
               let problem_size_MB = dmul space_per_elem num_elems;
                   problem_size_per_rank =
                     double_to_int (dceil problem_size_MB) sdiv rank_size_MB;
                   num_tasks =
                     (if problem_size_per_rank smod num_ranks = 0 then problem_size_per_rank
                      else
                        let tasks_per_rank =
                              double_to_int (dceil
                                (ddiv (double_of_int problem_size_per_rank)
                                   (double_of_int num_ranks)))
                        in wrap_int (tasks_per_rank * num_ranks))
               in Some num_tasks)"

text \<open>A \<open>task\<close> (tasking.hpp) is built from the first and last row and the first and
  last column of its run of element pairs.\<close>

record task =
  elem_start :: int
  elem_end :: int
  conn_start :: int
  conn_end :: int

text \<open>\<open>assign_elements_to_tasks\<close>.  With a table of no elements the first pass of the
  loop divides by zero, which ends the process as a failed assertion does.\<close>

definition assign_elements_to_tasks :: "element_table \<Rightarrow> int \<Rightarrow> task list option" where
  "assign_elements_to_tasks table num_tasks =
     (if \<not> num_tasks > 0 then None
      else if table_size table = 0 then None
      else
        let num_elems = table_size table * table_size table;
            elems_per_task = num_elems sdiv num_tasks
        in Some (map (\<lambda>i.
                   let task_start = i * elems_per_task;
                       task_end = (i + 1) * elems_per_task - 1;
                       task_start_row = task_start sdiv table_size table;
                       task_start_col = task_start smod table_size table;
                       task_end_row = task_end sdiv table_size table;
                       task_end_col = task_end smod table_size table
                   in \<lparr>elem_start = task_start_row, elem_end = task_end_row,
                       conn_start = task_start_col, conn_end = task_end_col\<rparr>)
                 [0..num_tasks - 1]))"

text \<open>
  Notions used to state the properties of the tasks.  The pair \<open>(row, col)\<close> has the
  linear index \<open>row * N + col\<close>; a task covers the indices from that of its first pair
  to that of its last.  \<open>claimed_num_tasks\<close> is the number of tasks as the
  specification words it: the problem size divided by the ceiling, the quotient rounded
  up, then raised to a multiple of the rank count.
\<close>

definition task_covers :: "int \<Rightarrow> task \<Rightarrow> int \<Rightarrow> bool" where
  "task_covers n t k \<longleftrightarrow>
     elem_start t * n + conn_start t \<le> k \<and> k \<le> elem_end t * n + conn_end t"

definition claimed_num_tasks :: "real \<Rightarrow> int \<Rightarrow> int \<Rightarrow> int" where
  "claimed_num_tasks problem_size_MB num_ranks rank_size_MB =
     (let quotient = \<lceil>problem_size_MB / real_of_int rank_size_MB\<rceil>
      in if quotient mod num_ranks = 0 then quotient
         else (quotient div num_ranks + 1) * num_ranks)"

section \<open>Wavelet to real space (transformations.cpp)\<close>

text \<open>
  The classes \<open>fk::matrix\<close> and \<open>fk::vector\<close> (tensors.hpp) are not among the
  sources.  The functions below take the operations they call as a record of
  parameters, over any types of matrices and vectors: \<open>mat_view m r1 r2 c1 c2\<close> is the
  view of rows \<open>r1..r2\<close> and columns \<open>c1..c2\<close>, \<open>vec_view v i j\<close> the view of entries
  \<open>i..j\<close>, \<open>vec_zero n\<close> the vector \<open>fk::vector<P>(n)\<close>.  An operation that builds a
  matrix or a vector may fail (an assertion on its arguments, or no memory), and then
  the run has no result.  A view and the matrix copied from it are not told apart.
\<close>

record ('m, 'v) tensor_ops =
  mat_nrows :: "'m \<Rightarrow> int"
  mat_ncols :: "'m \<Rightarrow> int"
  mat_view :: "'m \<Rightarrow> int \<Rightarrow> int \<Rightarrow> int \<Rightarrow> int \<Rightarrow> 'm option"
  mat_kron :: "'m \<Rightarrow> 'm \<Rightarrow> 'm option"
  mat_times_vec :: "'m \<Rightarrow> 'v \<Rightarrow> 'v option"
  vec_plus :: "'v \<Rightarrow> 'v \<Rightarrow> 'v option"
  vec_view :: "'v \<Rightarrow> int \<Rightarrow> int \<Rightarrow> 'v option"
  vec_zero :: "int \<Rightarrow> 'v option"

text \<open>
  \<open>kron_matrix_MB\<close>.  The products \<open>r\<close> and \<open>c\<close> of the row and column counts are
  \<open>long\<close>; in \<open>r * c * sizeof(P) * 1e-6\<close> the product \<open>r * c\<close> is a \<open>long\<close>, its
  product with \<open>sizeof(P)\<close> a \<open>std::size_t\<close>, and the product with \<open>1e-6\<close> a
  \<open>double\<close>, which the \<open>return\<close> converts to \<open>int\<close>.
\<close>

definition kron_matrix_MB :: "('m, 'v) tensor_ops \<Rightarrow> precision \<Rightarrow> 'm list \<Rightarrow> int" where
  "kron_matrix_MB ops P kron_matrices =
     (case fold (\<lambda>m (r, c). (wrap_long (r * mat_nrows ops m), wrap_long (c * mat_ncols ops m)))
             kron_matrices (1, 1) of
        (r, c) \<Rightarrow>
          double_to_int
            (dmul (double_of_int (to_size_t (to_size_t (wrap_long (r * c)) * sizeof P)))
               one_millionth))"

function recursive_kron :: "('m, 'v) tensor_ops \<Rightarrow> 'm list \<Rightarrow> int \<Rightarrow> 'm option" where
  "recursive_kron ops kron_matrices index =
     (if \<not> index \<ge> 0 then None
      else if \<not> index < int (length kron_matrices) then None
      else if index = int (length kron_matrices) - 1 then Some (last kron_matrices)
      else case recursive_kron ops kron_matrices (index + 1) of
             None \<Rightarrow> None
           | Some k \<Rightarrow> mat_kron ops (kron_matrices ! nat index) k)"
  by pat_completeness auto
termination
  by (relation "measure (\<lambda>(ops, kron_matrices, index). nat (int (length kron_matrices) - index))")
     auto

text \<open>
  The body of the inner loop of \<open>wavelet_to_realspace\<close>: the view for dimension \<open>j\<close>
  of the element with the coordinates \<open>coords\<close>.  \<open>real_space_transform\<close> is the result
  of \<open>gen_realspace_transform(pde)\<close> and \<open>get_1d_index\<close> the function of that name
  (connectivity.hpp); both are parameters.
\<close>

definition element_view ::
  "('m, 'v) tensor_ops \<Rightarrow> PDE \<Rightarrow> 'm list \<Rightarrow> (int \<Rightarrow> int \<Rightarrow> int) \<Rightarrow> int list \<Rightarrow> int
    \<Rightarrow> 'm option" where
  "element_view ops pde real_space_transform get_1d_index coords j =
     (case read_at coords j of
        None \<Rightarrow> None
      | Some level \<Rightarrow>
     (case read_at coords (wrap_int (j + num_dims pde)) of
        None \<Rightarrow> None
      | Some cell \<Rightarrow>
     (case read_at (get_dimensions pde) j of
        None \<Rightarrow> None
      | Some d \<Rightarrow>
     (case read_at real_space_transform j of
        None \<Rightarrow> None
      | Some transform \<Rightarrow>
          let id = get_1d_index level cell;
              degree = get_degree d
          in mat_view ops transform 0 (wrap_int (mat_nrows ops transform - 1))
               (wrap_int (id * degree)) (wrap_int (wrap_int (wrap_int (id + 1) * degree) - 1))))))"

text \<open>The inner loop: it appends the views of element \<open>i\<close>, one per dimension, to
  \<open>kron_matrices\<close>.  \<open>kron_matrices.reserve(pde.num_dims)\<close> throws for a negative
  count, which is not caught.\<close>

definition element_view_step ::
  "('m, 'v) tensor_ops \<Rightarrow> PDE \<Rightarrow> 'm list \<Rightarrow> (int \<Rightarrow> int \<Rightarrow> int) \<Rightarrow> int list \<Rightarrow> int
    \<Rightarrow> 'm list option \<Rightarrow> 'm list option" where
  "element_view_step ops pde real_space_transform get_1d_index coords j st =
     (case st of
        None \<Rightarrow> None
      | Some kron_matrices \<Rightarrow>
          (case element_view ops pde real_space_transform get_1d_index coords j of
             None \<Rightarrow> None
           | Some sub_matrix \<Rightarrow> Some (kron_matrices @ [sub_matrix])))"

definition element_kron_matrices ::
  "('m, 'v) tensor_ops \<Rightarrow> PDE \<Rightarrow> 'm list \<Rightarrow> (int \<Rightarrow> int \<Rightarrow> int) \<Rightarrow> element_table \<Rightarrow> int
    \<Rightarrow> 'm list option" where
  "element_kron_matrices ops pde real_space_transform get_1d_index table i =
     (if num_dims pde < 0 then None
      else case read_at table i of
             None \<Rightarrow> None
           | Some coords \<Rightarrow>
               fold (element_view_step ops pde real_space_transform get_1d_index coords)
                 [0..num_dims pde - 1] (Some []))"

text \<open>The body of the loop over the elements; the state is \<open>real_space\<close>, and \<open>None\<close>
  once the run has failed.  The assertion on \<open>kron_matrix_MB\<close> stands between the
  inner loop and the call of \<open>recursive_kron\<close>.\<close>

definition realspace_step ::
  "('m, 'v) tensor_ops \<Rightarrow> precision \<Rightarrow> PDE \<Rightarrow> 'm list \<Rightarrow> (int \<Rightarrow> int \<Rightarrow> int) \<Rightarrow> 'v
    \<Rightarrow> element_table \<Rightarrow> int \<Rightarrow> int \<Rightarrow> int \<Rightarrow> 'v option \<Rightarrow> 'v option" where
  "realspace_step ops P pde real_space_transform get_1d_index wave_space table
       memory_limit_MB stride i st =
     (case st of
        None \<Rightarrow> None
      | Some real_space \<Rightarrow>
     (case element_kron_matrices ops pde real_space_transform get_1d_index table i of
        None \<Rightarrow> None
      | Some kron_matrices \<Rightarrow>
          if \<not> kron_matrix_MB ops P kron_matrices \<le> memory_limit_MB then None
          else
     (case recursive_kron ops kron_matrices 0 of
        None \<Rightarrow> None
      | Some kronecker_product \<Rightarrow>
     (case vec_view ops wave_space (wrap_int (i * stride))
             (wrap_int (wrap_int (wrap_int (i + 1) * stride) - 1)) of
        None \<Rightarrow> None
      | Some x \<Rightarrow>
     (case mat_times_vec ops kronecker_product x of
        None \<Rightarrow> None
      | Some y \<Rightarrow> vec_plus ops real_space y)))))"

text \<open>
  \<open>wavelet_to_realspace\<close>.  In \<open>prod *= (degree * std::pow(2, level))\<close> the product is
  taken in \<open>double\<close> and converted back to \<open>int\<close>.
\<close>

definition wavelet_to_realspace ::
  "('m, 'v) tensor_ops \<Rightarrow> precision \<Rightarrow> PDE \<Rightarrow> 'm list \<Rightarrow> (int \<Rightarrow> int \<Rightarrow> int) \<Rightarrow> 'v
    \<Rightarrow> element_table \<Rightarrow> int \<Rightarrow> 'v option" where
  "wavelet_to_realspace ops P pde real_space_transform get_1d_index wave_space table
       memory_limit_MB =
     (if \<not> memory_limit_MB > 0 then None
      else
        let dims = get_dimensions pde;
            prod = fold (\<lambda>d prod.
                     double_to_int
                       (dmul (double_of_int prod)
                          (dmul (double_of_int (get_degree d)) (dpow 2 (get_level d)))))
                     dims 1
        in case vec_zero ops prod of
             None \<Rightarrow> None
           | Some real_space \<Rightarrow>
               (case dims of
                  [] \<Rightarrow> None
                | d # _ \<Rightarrow>
                    let stride = double_to_int (dpow (get_degree d) (int (length dims)))
                    in fold (realspace_step ops P pde real_space_transform get_1d_index
                               wave_space table memory_limit_MB stride)
                         [0..table_size table - 1] (Some real_space)))"

text \<open>
  An instance of the operations that keeps only shapes: a matrix is its pair of row and
  column counts, a vector its length, and an operation fails when the shapes of its
  arguments do not fit.  It runs the functions above at concrete inputs.
  Modelled from the spec: \<open>get_1d_index\<close> (connectivity.hpp is not among the sources),
  ``index = \<open>2^level - 1 + cell\<close> for level > 0, \<open>0\<close> for level 0''.
\<close>

definition shape_ops :: "(int \<times> int, int) tensor_ops" where
  "shape_ops =
     \<lparr>mat_nrows = fst, mat_ncols = snd,
      mat_view = (\<lambda>m r1 r2 c1 c2.
        if 0 \<le> r1 \<and> r1 \<le> r2 \<and> r2 < fst m \<and> 0 \<le> c1 \<and> c1 \<le> c2 \<and> c2 < snd m
        then Some (r2 - r1 + 1, c2 - c1 + 1) else None),
      mat_kron = (\<lambda>a b. Some (fst a * fst b, snd a * snd b)),
      mat_times_vec = (\<lambda>m v. if snd m = v then Some (fst m) else None),
      vec_plus = (\<lambda>a b. if a = b then Some a else None),
      vec_view = (\<lambda>v i j. if 0 \<le> i \<and> i \<le> j \<and> j < v then Some (j - i + 1) else None),
      vec_zero = (\<lambda>n. if 0 \<le> n then Some n else None)\<rparr>"

definition get_1d_index :: "int \<Rightarrow> int \<Rightarrow> int" where
  "get_1d_index level cell = (if level = 0 then 0 else 2 ^ nat level - 1 + cell)"

definition example_pde :: PDE where
  "example_pde =
     \<lparr>num_dims = 2, num_sources = 0, num_terms = 2,
      get_dimensions = [\<lparr>get_level = 2, get_degree = 2\<rparr>, \<lparr>get_level = 2, get_degree = 2\<rparr>]\<rparr>"

text \<open>A PDE with the same level and degree in each of its dimensions.\<close>

definition uniform_pde :: "int \<Rightarrow> int \<Rightarrow> int \<Rightarrow> int \<Rightarrow> PDE" where
  "uniform_pde dims terms level degree =
     \<lparr>num_dims = dims, num_sources = 0, num_terms = terms,
      get_dimensions = replicate (nat dims) \<lparr>get_level = level, get_degree = degree\<rparr>\<rparr>"

section \<open>Proofs: arithmetic and containers\<close>

lemma table_size_nonneg: "0 \<le> table_size table"
  by (simp add: table_size_def)

lemma sdiv_nonneg: "0 \<le> a \<Longrightarrow> 0 \<le> b \<Longrightarrow> a sdiv b = a div (b::int)"
  by (cases "a = 0"; cases "b = 0") (simp_all add: signed_divide_int_def sgn_if)

lemma smod_nonneg: "0 \<le> a \<Longrightarrow> 0 \<le> b \<Longrightarrow> a smod b = a mod (b::int)"
  by (cases "a = 0"; cases "b = 0") (simp_all add: signed_modulo_int_def sgn_if)

lemma has_root_upto_iff: "has_root_upto k n \<longleftrightarrow> (\<exists>j\<le>k. int j * int j = n)"
proof (induction k)
  case 0
  then show ?case by auto
next
  case (Suc k)
  show ?case
  proof
    assume "has_root_upto (Suc k) n"
    then show "\<exists>j\<le>Suc k. int j * int j = n"
      using Suc.IH by (auto intro: le_SucI)
  next
    assume "\<exists>j\<le>Suc k. int j * int j = n"
    then obtain j where j: "j \<le> Suc k" "int j * int j = n" by blast
    show "has_root_upto (Suc k) n"
    proof (cases "j = Suc k")
      case True
      with j show ?thesis by simp
    next
      case False
      with j have "j \<le> k" by simp
      with j Suc.IH show ?thesis by auto
    qed
  qed
qed

lemma is_perfect_square_iff: "is_perfect_square n \<longleftrightarrow> (\<exists>k. 0 \<le> k \<and> k * k = n)"
proof
  assume "is_perfect_square n"
  then obtain j where "int j * int j = n"
    by (auto simp: is_perfect_square_def has_root_upto_iff)
  then show "\<exists>k. 0 \<le> k \<and> k * k = n"
    by (intro exI[of _ "int j"]) simp
next
  assume "\<exists>k. 0 \<le> k \<and> k * k = n"
  then obtain k where k: "0 \<le> k" "k * k = n" by blast
  have "k \<le> k * k"
    using k(1) by (cases "k = 0") (simp_all add: mult_le_cancel_left1)
  with k have "nat k \<le> nat n" by simp
  moreover have "int (nat k) * int (nat k) = n" using k by simp
  ultimately show "is_perfect_square n"
    unfolding is_perfect_square_def has_root_upto_iff by blast
qed

lemma num_effective_ranks_cases:
  "num_effective_ranks n = (if even n \<or> is_perfect_square n then n else n - 1)"
proof -
  have "n smod 2 = 0 \<longleftrightarrow> even n"
    by (auto simp: signed_modulo_int_def sgn_if abs_if elim: evenE oddE) 
  then show ?thesis by (auto simp: num_effective_ranks_def)
qed

lemma emplace_snoc:
  "\<forall>e\<in>set m. fst e < k \<Longrightarrow> emplace k v m = m @ [(k, v)]"
proof -
  assume a: "\<forall>e\<in>set m. fst e < k"
  then have "insort_key fst (k, v) m = m @ [(k, v)]"
    by (induction m) auto
  moreover from a have "k \<notin> fst ` set m" by auto
  ultimately show ?thesis by (simp add: emplace_def)
qed

section \<open>Proofs: the distribution plan\<close>

lemma band_start_0: "0 \<le> n \<Longrightarrow> 0 < k \<Longrightarrow> band_start n k 0 = 0"
  by (simp add: band_start_def)

lemma band_start_Suc: "band_start n k (b + 1) = band_stop n k b + 1"
  by (simp add: band_start_def band_stop_def algebra_simps min_def)

lemma band_start_last: "0 < k \<Longrightarrow> band_start n k k = n"
proof -
  assume k: "0 < k"
  then have "n mod k < k" by simp
  then have "min k (n mod k) = n mod k" by simp
  then show ?thesis by (simp add: band_start_def)
qed

lemma band_start_mono:
  assumes "0 \<le> n" "0 < k" "b \<le> b'"
  shows "band_start n k b \<le> band_start n k b'"
proof -
  have "0 \<le> n div k" using assms by (simp add: pos_imp_zdiv_nonneg_iff)
  then have "b * (n div k) \<le> b' * (n div k)"
    using assms(3) by (rule mult_right_mono[rotated])
  moreover have "min b (n mod k) \<le> min b' (n mod k)" using assms(3) by simp
  ultimately show ?thesis by (simp add: band_start_def)
qed

lemma band_exists_aux:
  assumes "0 \<le> n" "0 < k" "0 \<le> x"
  shows "x < band_start n k (int m) \<Longrightarrow>
    \<exists>b. 0 \<le> b \<and> b < int m \<and> band_start n k b \<le> x \<and> x \<le> band_stop n k b"
proof (induction m)
  case 0
  then show ?case using assms by (simp add: band_start_0)
next
  case (Suc m)
  show ?case
  proof (cases "x < band_start n k (int m)")
    case True
    from Suc.IH[OF True] obtain b where
      "0 \<le> b" "b < int m" "band_start n k b \<le> x" "x \<le> band_stop n k b" by blast
    then show ?thesis by (intro exI[of _ b]) simp
  next
    case False
    moreover have "x \<le> band_stop n k (int m)"
      using Suc.prems band_start_Suc[of n k "int m"] by (simp add: add.commute)
    ultimately show ?thesis by (intro exI[of _ "int m"]) simp
  qed
qed

lemma band_exists:
  assumes "0 \<le> n" "0 < k" "0 \<le> x" "x < n"
  shows "\<exists>b. 0 \<le> b \<and> b < k \<and> band_start n k b \<le> x \<and> x \<le> band_stop n k b"
proof -
  have "x < band_start n k (int (nat k))"
    using assms by (simp add: band_start_last)
  from band_exists_aux[OF assms(1-3) this] show ?thesis using assms(2) by simp
qed

lemma band_unique_aux:
  assumes "0 \<le> n" "0 < k" "b < b'"
    and "band_start n k b \<le> x" "x \<le> band_stop n k b"
    and "band_start n k b' \<le> x" "x \<le> band_stop n k b'"
  shows False
proof -
  have "band_start n k (b + 1) \<le> band_start n k b'"
    using assms(1-3) by (intro band_start_mono) simp_all
  then show False using assms(5,6) by (simp add: band_start_Suc)
qed

lemma band_unique:
  assumes "0 \<le> n" "0 < k"
    and "band_start n k b \<le> x" "x \<le> band_stop n k b"
    and "band_start n k b' \<le> x" "x \<le> band_stop n k b'"
  shows "b = b'"
  using band_unique_aux[OF assms(1,2) _ assms(3-6)]
        band_unique_aux[OF assms(1,2) _ assms(5,6,3,4)]
  by (cases b b' rule: linorder_cases) auto

lemma band_in_range:
  assumes "0 \<le> n" "0 < k" "0 \<le> b" "b < k"
    and "band_start n k b \<le> x" "x \<le> band_stop n k b"
  shows "0 \<le> x \<and> x < n"
proof -
  have "band_start n k 0 \<le> band_start n k b"
    using assms by (intro band_start_mono) simp_all
  moreover have "band_start n k (b + 1) \<le> band_start n k k"
    using assms by (intro band_start_mono) simp_all
  ultimately show ?thesis
    using assms by (simp add: band_start_0 band_start_last band_start_Suc)
qed

lemma band_size:
  "band_stop n k b - band_start n k b + 1 = n div k + (if b < n mod k then 1 else 0)"
  by (simp add: band_stop_def)

lemma effective_ranks_shape:
  "0 < n \<Longrightarrow> (let e = num_effective_ranks n in
      0 < e \<and> e \<le> n \<and> (e smod 2 = 0 \<or> e = 1 \<or> is_perfect_square e))"
proof -
  assume n: "0 < n"
  have sm: "\<And>m::int. m smod 2 = 0 \<longleftrightarrow> even m"
    by (auto simp: signed_modulo_int_def sgn_if abs_if elim: evenE oddE)
  show ?thesis
  proof (cases "even n \<or> is_perfect_square n")
    case True
    then show ?thesis using n by (auto simp: num_effective_ranks_cases Let_def sm)
  next
    case False
    then have "odd n" by simp
    then have "even (n - 1)" by simp
    moreover have "is_perfect_square 1"
      unfolding is_perfect_square_iff by (intro exI[of _ 1]) simp
    then have "n \<noteq> 1" using False by auto
    ultimately show ?thesis using n False
      by (auto simp: num_effective_ranks_cases Let_def sm)
  qed
qed

lemma get_subgrid_bands:
  assumes e: "0 < e" "e smod 2 = 0 \<or> e = 1 \<or> is_perfect_square e"
    and i: "0 \<le> i" "i < e" and N: "e < table_size table"
    and c: "0 < gnsc e" "gnsc e dvd e"
  shows "get_subgrid gnsc e i table =
     Some (band_subgrid (table_size table) (e div gnsc e) (gnsc e) i)"
proof (cases "e = 1")
  case True
  with c have c1: "gnsc e = 1" by simp
  from True i have i0: "i = 0" by simp
  show ?thesis using True N c1 i0
    by (simp add: get_subgrid_def band_subgrid_def band_start_def band_stop_def)
next
  case False
  let ?C = "gnsc e" and ?N = "table_size table"
  have R: "0 < e div ?C"
  proof -
    define C where "C = gnsc e"
    from c have C: "0 < C" "C dvd e" by (simp_all add: C_def)
    from C(2) obtain q where q: "e = C * q" by (rule dvdE)
    have "0 < C * q" using e(1) q by simp
    with C(1) have "0 < q" by (simp add: zero_less_mult_iff)
    with q C(1) have "0 < e div C" by simp
    then show ?thesis by (simp add: C_def)
  qed
  have Nn: "0 \<le> ?N" by (rule table_size_nonneg)
  have s1: "e sdiv ?C = e div ?C" using e c by (simp add: sdiv_nonneg)
  have s2: "i sdiv ?C = i div ?C" "i smod ?C = i mod ?C"
    using i c by (simp_all add: sdiv_nonneg smod_nonneg)
  have s3: "?N sdiv ?C = ?N div ?C" "?N smod ?C = ?N mod ?C"
    using Nn c by (simp_all add: sdiv_nonneg smod_nonneg)
  have s4: "?N sdiv (e div ?C) = ?N div (e div ?C)" "?N smod (e div ?C) = ?N mod (e div ?C)"
    using Nn R by (simp_all add: sdiv_nonneg smod_nonneg)
  show ?thesis
    using False e i N
    by (simp add: get_subgrid_def Let_def s1 s2 s3 s4 band_subgrid_def band_start_def
        band_stop_def)
qed

lemma get_plan_fold:
  assumes "\<forall>i\<in>set is. get_subgrid gnsc e i table = Some (g i)"
    and "sorted_wrt (<) is" and "\<forall>en\<in>set p. \<forall>i\<in>set is. fst en < i"
  shows "fold (get_plan_step gnsc e table) is (Some p) = Some (p @ map (\<lambda>i. (i, g i)) is)"
  using assms
proof (induction "is" arbitrary: p)
  case Nil
  then show ?case by simp
next
  case (Cons i "is")
  have step: "get_plan_step gnsc e table i (Some p) = Some (p @ [(i, g i)])"
    using Cons.prems by (simp add: get_plan_step_def emplace_snoc)
  have "fold (get_plan_step gnsc e table) is (Some (p @ [(i, g i)]))
      = Some ((p @ [(i, g i)]) @ map (\<lambda>i. (i, g i)) is)"
    using Cons.prems by (intro Cons.IH) auto
  then show ?case by (simp add: step)
qed

lemma get_plan_bands:
  assumes "0 < num_ranks" "num_ranks < table_size table"
    and "0 < gnsc (num_effective_ranks num_ranks)"
    and "gnsc (num_effective_ranks num_ranks) dvd num_effective_ranks num_ranks"
  shows "get_plan gnsc num_ranks table =
     Some (map (\<lambda>i. (i, band_subgrid (table_size table)
                        (num_effective_ranks num_ranks div gnsc (num_effective_ranks num_ranks))
                        (gnsc (num_effective_ranks num_ranks)) i))
            [0..num_effective_ranks num_ranks - 1])"
proof -
  let ?e = "num_effective_ranks num_ranks"
  from effective_ranks_shape[OF assms(1)]
  have e: "0 < ?e" "?e \<le> num_ranks" "?e smod 2 = 0 \<or> ?e = 1 \<or> is_perfect_square ?e"
    by (simp_all add: Let_def)
  have "\<forall>i\<in>set [0..?e - 1]. get_subgrid gnsc ?e i table =
      Some (band_subgrid (table_size table) (?e div gnsc ?e) (gnsc ?e) i)"
    using e assms by (auto intro!: get_subgrid_bands)
  from get_plan_fold[OF this, of "[]"] show ?thesis
    using assms(1,2) by (simp add: get_plan_def Let_def sorted_wrt_upto)
qed

lemma band_subgrid_cover:
  assumes n: "0 \<le> n" and R: "0 < R" and C: "0 < C"
    and rc: "0 \<le> row" "row < n" "0 \<le> col" "col < n"
  shows "\<exists>!i. 0 \<le> i \<and> i < R * C \<and> in_subgrid (band_subgrid n R C i) row col"
proof -
  from band_exists[OF n R rc(1,2)] obtain br where
    br: "0 \<le> br" "br < R" "band_start n R br \<le> row" "row \<le> band_stop n R br" by blast
  from band_exists[OF n C rc(3,4)] obtain bc where
    bc: "0 \<le> bc" "bc < C" "band_start n C bc \<le> col" "col \<le> band_stop n C bc" by blast
  let ?i = "br * C + bc"
  have d: "?i div C = br" "?i mod C = bc" using bc C by simp_all
  have "br + 1 \<le> R" using br by simp
  then have "(br + 1) * C \<le> R * C" using C by (simp add: mult_right_mono)
  then have lt: "?i < R * C" using bc by (simp add: algebra_simps)
  have ge: "0 \<le> ?i" using br bc C by simp
  show ?thesis
  proof (rule ex1I[of _ ?i])
    show "0 \<le> ?i \<and> ?i < R * C \<and> in_subgrid (band_subgrid n R C ?i) row col"
      using ge lt br bc unfolding in_subgrid_def band_subgrid_def d by simp
  next
    fix j
    assume j: "0 \<le> j \<and> j < R * C \<and> in_subgrid (band_subgrid n R C j) row col"
    then have "band_start n R (j div C) \<le> row" "row \<le> band_stop n R (j div C)"
      "band_start n C (j mod C) \<le> col" "col \<le> band_stop n C (j mod C)"
      by (simp_all add: in_subgrid_def band_subgrid_def)
    then have "j div C = br" "j mod C = bc"
      using band_unique[OF n R _ _ br(3,4)] band_unique[OF n C _ _ bc(3,4)] by blast+
    then show "j = ?i" using div_mult_mod_eq[of j C] by simp
  qed
qed

lemma band_subgrid_inside:
  assumes n: "0 \<le> n" and R: "0 < R" and C: "0 < C"
    and i: "0 \<le> i" "i < R * C" and "in_subgrid (band_subgrid n R C i) row col"
  shows "0 \<le> row \<and> row < n \<and> 0 \<le> col \<and> col < n"
proof -
  have 1: "0 \<le> i div C" using i C by (simp add: pos_imp_zdiv_nonneg_iff)
  have 2: "i div C < R"
  proof (rule ccontr)
    assume "\<not> i div C < R"
    then have "R * C \<le> (i div C) * C" using C by (simp add: mult_right_mono)
    moreover have "(i div C) * C \<le> i"
      using pos_mod_sign[of C i] div_mult_mod_eq[of i C] C by linarith
    ultimately show False using i by simp
  qed
  have 3: "0 \<le> i mod C" "i mod C < C" using C by simp_all
  from assms(6) have b: "band_start n R (i div C) \<le> row" "row \<le> band_stop n R (i div C)"
      "band_start n C (i mod C) \<le> col" "col \<le> band_stop n C (i mod C)"
    by (simp_all add: in_subgrid_def band_subgrid_def)
  show ?thesis
    using band_in_range[OF n R 1 2 b(1,2)] band_in_range[OF n C 3 b(3,4)] by simp
qed

lemma band_subgrid_sizes:
  "nrows (band_subgrid n R C i) = n div R + (if i div C < n mod R then 1 else 0)"
  "ncols (band_subgrid n R C i) = n div C + (if i mod C < n mod C then 1 else 0)"
  by (simp_all add: nrows_def ncols_def band_subgrid_def band_stop_def)

lemma num_effective_ranks_3: "num_effective_ranks 3 = 2"
  by (simp add: num_effective_ranks_def is_perfect_square_def eval_nat_numeral
      signed_modulo_int_def)

lemma get_num_subgrid_cols_2: "get_num_subgrid_cols 2 = 1"
  by (simp add: get_num_subgrid_cols_def round_sqrt_def eval_nat_numeral)

lemma num_effective_ranks_4: "num_effective_ranks 4 = 4"
  by (simp add: num_effective_ranks_def signed_modulo_int_def)

lemma get_num_subgrid_cols_4: "get_num_subgrid_cols 4 = 2"
  by (simp add: get_num_subgrid_cols_def round_sqrt_def eval_nat_numeral)

section \<open>Proofs: column dependencies\<close>

lemma upto_snoc_nat: "[0..int (Suc m) - 1] = [0..int m - 1] @ [int m]"
  using upto_rec2[of 0 "int m"] by simp

lemma band_first_Suc:
  "band_first bs (int (Suc m)) = bs ! m + 1"
  "band_first bs (1 + int m) = bs ! m + 1"
  "band_first bs (int m + 1) = bs ! m + 1"
  by (simp_all add: band_first_def)

lemma band_first_0: "band_first bs 0 = 0"
  by (simp add: band_first_def)

lemma row_step_eq:
  "find_dependencies_row_step rb c (band_first cb c) (cb ! nat c) r (band_first rb r, cd)
   = (rb ! nat r + 1,
      if overlap_test rb cb c r
      then cd[nat c := emplace r (overlap_limits rb cb c r) (cd ! nat c)] else cd)"
  by (simp add: find_dependencies_row_step_def Let_def overlap_test_def overlap_limits_def)

lemma row_loop:
  assumes "nat c < length cd" "cd ! nat c = []" "0 \<le> c"
  shows "m \<le> length rb \<Longrightarrow>
    fold (find_dependencies_row_step rb c (band_first cb c) (cb ! nat c)) [0..int m - 1] (0, cd)
    = (band_first rb (int m),
       cd[nat c := map (\<lambda>r. (r, overlap_limits rb cb c r))
                     (filter (overlap_test rb cb c) [0..int m - 1])])"
proof (induction m)
  case 0
  then show ?case using assms list_update_id[of cd "nat c"] by (simp add: band_first_0)
next
  case (Suc m)
  let ?deps = "map (\<lambda>r. (r, overlap_limits rb cb c r)) (filter (overlap_test rb cb c) [0..int m - 1])"
  have keys: "\<forall>e\<in>set ?deps. fst e < int m" by auto
  have IH: "fold (find_dependencies_row_step rb c (band_first cb c) (cb ! nat c)) [0..int m - 1] (0, cd)
    = (band_first rb (int m), cd[nat c := ?deps])"
    using Suc by simp
  have em: "emplace (int m) v ?deps = ?deps @ [(int m, v)]" for v
    using keys by (rule emplace_snoc)
  show ?case
    unfolding upto_snoc_nat fold_append comp_def IH
    using assms(1) by (simp add: row_step_eq em band_first_Suc)
qed

lemma col_step:
  assumes "nat c < length cd" "cd ! nat c = []" "0 \<le> c"
  shows "find_dependencies_col_step rb cb c (band_first cb c, cd)
     = (cb ! nat c + 1, cd[nat c := column_dependency rb cb c])"
  using row_loop[OF assms, of "length rb" rb cb]
  by (simp add: find_dependencies_col_step_def Let_def column_dependency_def)

lemma col_loop:
  "m \<le> length cb \<Longrightarrow>
    fold (find_dependencies_col_step rb cb) [0..int m - 1] (0, replicate (length cb) [])
    = (band_first cb (int m),
       map (column_dependency rb cb) [0..int m - 1] @ replicate (length cb - m) [])"
proof (induction m)
  case 0
  then show ?case by (simp add: band_first_0)
next
  case (Suc m)
  let ?cd = "map (column_dependency rb cb) [0..int m - 1] @ replicate (length cb - m) []"
  have len: "length (map (column_dependency rb cb) [0..int m - 1]) = m" by simp
  have 1: "nat (int m) < length ?cd" using Suc.prems by simp
  have 2: "?cd ! nat (int m) = []" using Suc.prems by (simp add: nth_append)
  have 3: "?cd[nat (int m) := column_dependency rb cb (int m)]
      = map (column_dependency rb cb) [0..int m - 1] @ [column_dependency rb cb (int m)]
        @ replicate (length cb - Suc m) []"
  proof -
    have "replicate (length cb - m) ([]::rows_to_range) = [] # replicate (length cb - Suc m) []"
      using Suc.prems by (metis Suc_diff_Suc Suc_le_lessD replicate_Suc)
    then show ?thesis by (simp add: list_update_append)
  qed
  have IH: "fold (find_dependencies_col_step rb cb) [0..int m - 1] (0, replicate (length cb) [])
    = (band_first cb (int m), ?cd)"
    using Suc by simp
  show ?case
    unfolding upto_snoc_nat fold_append comp_def IH
    using col_step[OF 1 2, of rb cb] 3
    by (simp add: band_first_Suc)
qed

lemma find_column_dependencies_eq:
  "find_column_dependencies rb cb = map (column_dependency rb cb) [0..int (length cb) - 1]"
  using col_loop[of "length cb" cb rb] by (simp add: find_column_dependencies_def)

lemma nth_map_upto0: "0 \<le> c \<Longrightarrow> c < n \<Longrightarrow> map f [0..n - 1] ! nat c = f c"
  by (simp add: nth_upto)

lemma bands_nonempty_nth:
  assumes "bands_nonempty bs" "0 \<le> r" "r < int (length bs)"
  shows "band_first bs r \<le> bs ! nat r"
proof (cases "r = 0")
  case True
  from assms(1) have "\<forall>x\<in>set bs. -1 < x" by (simp add: bands_nonempty_def)
  moreover have "bs ! 0 \<in> set bs" using assms(3) True by (intro nth_mem) simp
  ultimately have "-1 < bs ! 0" by blast
  then show ?thesis using True by (simp add: band_first_def)
next
  case False
  with assms(2) have r: "0 < r" by simp
  from assms(1) have s: "sorted_wrt (<) bs" by (simp add: bands_nonempty_def)
  have "nat (r - 1) < nat r" "nat r < length bs" using r assms(3) by simp_all
  with s have "bs ! nat (r - 1) < bs ! nat r"
    by (simp add: sorted_wrt_iff_nth_less)
  then show ?thesis using r by (simp add: band_first_def)
qed

lemma overlap_test_iff:
  assumes "band_first rb r \<le> rb ! nat r" "band_first cb c \<le> cb ! nat c"
  shows "overlap_test rb cb c r \<longleftrightarrow> band_members rb r \<inter> band_members cb c \<noteq> {}"
proof
  assume "overlap_test rb cb c r"
  then have "max (band_first rb r) (band_first cb c) \<in> band_members rb r \<inter> band_members cb c"
    using assms by (auto simp: overlap_test_def band_members_def)
  then show "band_members rb r \<inter> band_members cb c \<noteq> {}" by blast
next
  assume "band_members rb r \<inter> band_members cb c \<noteq> {}"
  then obtain x where "x \<in> band_members rb r" "x \<in> band_members cb c" by blast
  then show "overlap_test rb cb c r"
    by (auto simp: overlap_test_def band_members_def)
qed

lemma overlap_limits_members:
  "{start (overlap_limits rb cb c r) .. stop (overlap_limits rb cb c r)}
     = band_members rb r \<inter> band_members cb c"
  by (auto simp: overlap_limits_def band_members_def)

lemma map_of_column_dependency:
  "map_of (column_dependency rb cb c) r =
     (if 0 \<le> r \<and> r < int (length rb) \<and> overlap_test rb cb c r
      then Some (overlap_limits rb cb c r) else None)"
  by (auto simp: column_dependency_def map_of_map_restrict restrict_map_def)

lemma column_dependency_keys_sorted: "sorted_wrt (<) (map fst (column_dependency rb cb c))"
proof -
  have "map fst (column_dependency rb cb c) = filter (overlap_test rb cb c) [0..int (length rb) - 1]"
    by (simp add: column_dependency_def comp_def)
  then show ?thesis by (simp add: sorted_wrt_filter)
qed

section \<open>Proofs: the message schedule and its replay\<close>

lemma fold_concat_eq: "fold f (concat xss) = fold (fold f) xss"
  by (induction xss) simp_all

lemma push_two_nth:
  assumes "0 \<le> t" "t < int (length msgs)" "0 \<le> s" "s < int (length msgs)" "p < length msgs"
  shows "(msgs[nat t := msgs ! nat t @ [a]])
           [nat s := (msgs[nat t := msgs ! nat t @ [a]]) ! nat s @ [b]] ! p
         = msgs ! p @ (if t = int p then [a] else []) @ (if s = int p then [b] else [])"
proof -
  have e1: "t = int p \<longleftrightarrow> nat t = p" using assms by auto
  have e2: "s = int p \<longleftrightarrow> nat s = p" using assms by auto
  show ?thesis
    unfolding e1 e2 using assms by (auto simp: nth_list_update)
qed

lemma loops_flatten:
  "fold (\<lambda>c. fold (\<lambda>(row, limits). fold (message_step nc c row limits) [0..R - 1])
                 (cd ! nat c))
     [0..int (length cd) - 1]
   = fold (\<lambda>(c, row, limits, r). message_step nc c row limits r) (work_items cd R)"
  by (simp add: work_items_def fold_concat_eq fold_map comp_def case_prod_unfold)

lemma rank_index_bound:
  assumes "0 \<le> r" "r < R" "0 \<le> c" "c < (C::int)"
  shows "0 \<le> r * C + c \<and> r * C + c < R * C"
proof -
  have "r + 1 \<le> R" using assms by simp
  then have "(r + 1) * C \<le> R * C" using assms by (intro mult_right_mono) simp_all
  then show ?thesis using assms by (simp add: algebra_simps)
qed

lemma push_back_at_Some:
  "0 \<le> i \<Longrightarrow> i < int (length xss) \<Longrightarrow>
    push_back_at i x xss = Some (xss[nat i := xss ! nat i @ [x]])"
  by (simp add: push_back_at_def)

lemma spin_ok:
  assumes "wheel_size w = nc" "0 \<le> current_index w" "current_index w < nc"
  shows "wheel_size (snd (spin w)) = nc \<and> 0 \<le> current_index (snd (spin w))
     \<and> current_index (snd (spin w)) < nc \<and> fst (spin w) = current_index w
     \<and> current_index (snd (spin w)) = (current_index w + 1) mod nc"
  using assms by (auto simp: spin_def Let_def)

lemma message_step_Some:
  assumes w: "wheels_ok nc ws" "int (length ws) = R"
    and m: "int (length msgs) = R * nc"
    and i: "item_ok R nc (c, row, limits, r)"
  shows "\<exists>msgs'. message_step nc c row limits r (Some (ws, msgs))
       = Some (if row = r then ws else ws[nat row := snd (spin (ws ! nat row))], msgs')
     \<and> length msgs' = length msgs
     \<and> (\<forall>p<length msgs. msgs' ! p = msgs ! p @
           assignment_messages (int p)
             (if row = r then r * nc + c else row * nc + current_index (ws ! nat row),
              r * nc + c, limits))"
proof -
  from i have c: "0 \<le> c" "c < nc" and row: "0 \<le> row" "row < R" and r: "0 \<le> r" "r < R"
    by (simp_all add: item_ok_def)
  let ?t = "r * nc + c"
  let ?s = "if row = r then ?t else row * nc + current_index (ws ! nat row)"
  have wrow: "ws ! nat row \<in> set ws" using row w(2) by (intro nth_mem) simp
  then have ci: "0 \<le> current_index (ws ! nat row)" "current_index (ws ! nat row) < nc"
    using w(1) by (simp_all add: wheels_ok_def)
  have t: "0 \<le> ?t" "?t < int (length msgs)"
    using rank_index_bound[OF r c] m by simp_all
  have s: "0 \<le> ?s" "?s < int (length msgs)"
    using rank_index_bound[OF row ci] t m by (simp_all split: if_splits)
  let ?rm = "\<lparr>message_dir = receive, target = ?s, msg_range = limits\<rparr>"
  let ?sm = "\<lparr>message_dir = send, target = ?t, msg_range = limits\<rparr>"
  let ?m1 = "msgs[nat ?t := msgs ! nat ?t @ [?rm]]"
  let ?m2 = "?m1[nat ?s := ?m1 ! nat ?s @ [?sm]]"
  have p1: "push_back_at ?t ?rm msgs = Some ?m1" using t by (rule push_back_at_Some)
  have p2: "push_back_at ?s ?sm ?m1 = Some ?m2" using s by (intro push_back_at_Some) simp_all
  have step: "message_step nc c row limits r (Some (ws, msgs))
       = Some (if row = r then ws else ws[nat row := snd (spin (ws ! nat row))], ?m2)"
  proof (cases "row = r")
    case True
    then show ?thesis using row w(2) p1 p2 by (simp add: message_step_def Let_def)
  next
    case False
    have f: "fst (spin (ws ! nat row)) = current_index (ws ! nat row)"
      by (simp add: spin_def Let_def)
    show ?thesis using False row w(2) p1 p2 f
      by (simp add: message_step_def Let_def case_prod_beta)
  qed
  have nth: "?m2 ! p = msgs ! p @ assignment_messages (int p) (?s, ?t, limits)"
    if "p < length msgs" for p
    using push_two_nth[OF t s that, of ?rm ?sm]
    by (simp add: assignment_messages_def)
  show ?thesis using step nth by (intro exI[of _ ?m2]) simp
qed

lemma wheels_ok_update:
  assumes "wheels_ok nc ws" "nat row < length ws"
  shows "wheels_ok nc (ws[nat row := snd (spin (ws ! nat row))])"
proof -
  have "ws ! nat row \<in> set ws" using assms(2) by simp
  then have "wheel_size (ws ! nat row) = nc" "0 \<le> current_index (ws ! nat row)"
      "current_index (ws ! nat row) < nc"
    using assms(1) by (simp_all add: wheels_ok_def)
  from spin_ok[OF this] assms(1) show ?thesis
    unfolding wheels_ok_def by (auto dest!: set_update_subset_insert[THEN subsetD])
qed

lemma rank_messages_Cons:
  "rank_messages p (a # as) = assignment_messages p a @ rank_messages p as"
  by (simp add: rank_messages_def)

lemma message_loop:
  assumes "wheels_ok nc ws" "int (length ws) = R" "int (length msgs) = R * nc"
    and "\<forall>it\<in>set items. item_ok R nc it"
  shows "\<exists>ws' msgs'.
      fold (\<lambda>(c, row, limits, r). message_step nc c row limits r) items (Some (ws, msgs))
        = Some (ws', msgs')
      \<and> length msgs' = length msgs
      \<and> (\<forall>p<length msgs. msgs' ! p = msgs ! p @ rank_messages (int p) (assign_senders nc ws items))"
  using assms
proof (induction items arbitrary: ws msgs)
  case Nil
  then show ?case by (simp add: rank_messages_def)
next
  case (Cons it items)
  obtain c row limits r where it: "it = (c, row, limits, r)" by (cases it) auto
  from Cons.prems(4) it have ok: "item_ok R nc (c, row, limits, r)" by simp
  then have row: "0 \<le> row" "row < R" by (simp_all add: item_ok_def)
  let ?ws1 = "if row = r then ws else ws[nat row := snd (spin (ws ! nat row))]"
  let ?a = "(if row = r then r * nc + c else row * nc + current_index (ws ! nat row),
              r * nc + c, limits)"
  from message_step_Some[OF Cons.prems(1-3) ok]
  obtain msgs1 where s1: "message_step nc c row limits r (Some (ws, msgs)) = Some (?ws1, msgs1)"
    and l1: "length msgs1 = length msgs"
    and n1: "\<forall>p<length msgs. msgs1 ! p = msgs ! p @ assignment_messages (int p) ?a"
    by blast
  have w1: "wheels_ok nc ?ws1"
    using Cons.prems(1,2) row by (auto intro!: wheels_ok_update)
  have lw: "int (length ?ws1) = R" using Cons.prems(2) by simp
  have lm: "int (length msgs1) = R * nc" using Cons.prems(3) l1 by simp
  from Cons.IH[OF w1 lw lm] Cons.prems(4)
  obtain ws' msgs' where
    f: "fold (\<lambda>(c, row, limits, r). message_step nc c row limits r) items (Some (?ws1, msgs1))
        = Some (ws', msgs')"
    and l2: "length msgs' = length msgs1"
    and n2: "\<forall>p<length msgs1. msgs' ! p
        = msgs1 ! p @ rank_messages (int p) (assign_senders nc ?ws1 items)"
    by auto
  have as: "assign_senders nc ws (it # items) = ?a # assign_senders nc ?ws1 items"
    by (simp add: it)
  have "\<forall>p<length msgs. msgs' ! p = msgs ! p @ rank_messages (int p) (assign_senders nc ws (it # items))"
    using n1 n2 l1 unfolding as rank_messages_Cons by simp
  then show ?case using f l1 l2 s1 by (simp add: it)
qed

lemma work_items_ok:
  assumes "\<forall>c<length cd. \<forall>e\<in>set (cd ! c). 0 \<le> fst e \<and> fst e < R" "int (length cd) = C"
  shows "\<forall>it\<in>set (work_items cd R). item_ok R C it"
proof
  fix it assume "it \<in> set (work_items cd R)"
  then obtain c row limits r where
    it: "it = (c, row, limits, r)" and c: "0 \<le> c" "c < int (length cd)"
    and e: "(row, limits) \<in> set (cd ! nat c)" and r: "0 \<le> r" "r < R"
    by (auto simp: work_items_def)
  from c have "nat c < length cd" by simp
  with assms(1) e have "0 \<le> row \<and> row < R" by fastforce
  then show "item_ok R C it" using it c r assms(2) by (simp add: item_ok_def)
qed

lemma dependencies_to_messages_eq:
  assumes len: "length cd = length cb"
    and rows: "\<forall>c<length cd. \<forall>e\<in>set (cd ! c). 0 \<le> fst e \<and> fst e < int (length rb)"
  shows "dependencies_to_messages cd rb cb
     = Some (map (\<lambda>p. rank_messages (int p) (assignments cd rb cb)) [0..<length rb * length cb])"
proof -
  let ?R = "int (length rb)" and ?C = "int (length cb)"
  let ?ws = "wheels_start (length rb) ?C"
  let ?ms = "replicate (length rb * length cb) ([]::message list)"
  let ?step = "\<lambda>(c, row, limits, r). message_step ?C c row limits r"
  have unfold: "dependencies_to_messages cd rb cb
      = map_option snd (fold ?step (work_items cd ?R) (Some (?ws, ?ms)))"
    unfolding dependencies_to_messages_def Let_def loops_flatten wheels_start_def
    using len by simp
  have items: "\<forall>it\<in>set (work_items cd ?R). item_ok ?R ?C it"
    using work_items_ok[OF rows] len by simp
  show ?thesis
  proof (cases "work_items cd ?R = []")
    case True
    have "map (\<lambda>p. rank_messages (int p) []) [0..<length rb * length cb] = ?ms"
      by (simp add: rank_messages_def map_replicate_const)
    then show ?thesis unfolding unfold by (simp add: True assignments_def)
  next
    case False
    then obtain it where "it \<in> set (work_items cd ?R)" by (cases "work_items cd ?R") auto
    with items have "item_ok ?R ?C it" by blast
    then have "0 < ?C" by (auto simp: item_ok_def)
    then have w: "wheels_ok ?C ?ws" by (simp add: wheels_ok_def wheels_start_def)
    have lw: "int (length ?ws) = ?R" by (simp add: wheels_start_def)
    have lm: "int (length ?ms) = ?R * ?C" by simp
    from message_loop[OF w lw lm items]
    obtain ws' msgs' where f: "fold ?step (work_items cd ?R) (Some (?ws, ?ms)) = Some (ws', msgs')"
      and l: "length msgs' = length ?ms"
      and n: "\<forall>p<length ?ms. msgs' ! p
           = ?ms ! p @ rank_messages (int p) (assign_senders ?C ?ws (work_items cd ?R))"
      by blast
    have "msgs' = map (\<lambda>p. rank_messages (int p) (assignments cd rb cb)) [0..<length rb * length cb]"
      using l n by (intro nth_equalityI) (simp_all add: assignments_def)
    then show ?thesis unfolding unfold f by simp
  qed
qed

lemma assign_senders_length: "length (assign_senders nc ws items) = length items"
  by (induction nc ws items rule: assign_senders.induct) simp_all

lemma spins_before_Cons:
  "spins_before row ((c0, row0, l0, r0) # items)
     = (if row0 = row \<and> row0 \<noteq> r0 then 1 else 0) + spins_before row items"
  by (simp add: spins_before_def)

lemma assign_senders_nth:
  assumes "wheels_ok nc ws" "int (length ws) = R" "\<forall>it\<in>set items. item_ok R nc it"
    and "k < length items" "items ! k = (c, row, limits, r)"
  shows "assign_senders nc ws items ! k =
     ((if row = r then r * nc + c
       else row * nc + (current_index (ws ! nat row) + int (spins_before row (take k items))) mod nc),
      r * nc + c, limits)"
  using assms
proof (induction items arbitrary: ws k)
  case Nil
  then show ?case by simp
next
  case (Cons it0 items)
  obtain c0 row0 l0 r0 where it0: "it0 = (c0, row0, l0, r0)" by (cases it0) auto
  from Cons.prems(3) it0 have ok0: "item_ok R nc (c0, row0, l0, r0)" by simp
  then have row0: "0 \<le> row0" "row0 < R" by (simp_all add: item_ok_def)
  have okk: "item_ok R nc (c, row, limits, r)"
    using Cons.prems(3,4,5) by (metis nth_mem)
  then have row: "0 \<le> row" "row < R" by (simp_all add: item_ok_def)
  have wrow: "ws ! nat row \<in> set ws" using row Cons.prems(2) by (intro nth_mem) simp
  then have ci: "wheel_size (ws ! nat row) = nc" "0 \<le> current_index (ws ! nat row)"
      "current_index (ws ! nat row) < nc"
    using Cons.prems(1) by (simp_all add: wheels_ok_def)
  show ?case
  proof (cases k)
    case 0
    with Cons.prems(5) it0 have e: "c0 = c" "row0 = row" "l0 = limits" "r0 = r" by simp_all
    show ?thesis using 0 ci by (simp add: it0 e spins_before_def)
  next
    case (Suc j)
    let ?ws1 = "if row0 = r0 then ws else ws[nat row0 := snd (spin (ws ! nat row0))]"
    have w1: "wheels_ok nc ?ws1"
      using Cons.prems(1,2) row0 by (auto intro!: wheels_ok_update)
    have lw: "int (length ?ws1) = R" using Cons.prems(2) by simp
    have j: "j < length items" "items ! j = (c, row, limits, r)"
      using Cons.prems(4,5) Suc by simp_all
    from Cons.IH[OF w1 lw _ j] Cons.prems(3)
    have IH: "assign_senders nc ?ws1 items ! j =
       ((if row = r then r * nc + c
         else row * nc + (current_index (?ws1 ! nat row) + int (spins_before row (take j items))) mod nc),
        r * nc + c, limits)"
      by simp
    have step: "assign_senders nc ws (it0 # items) ! k = assign_senders nc ?ws1 items ! j"
      by (simp add: it0 Suc)
    have idx: "(current_index (?ws1 ! nat row) + int (spins_before row (take j items))) mod nc
        = (current_index (ws ! nat row) + int (spins_before row (take k (it0 # items)))) mod nc"
    proof (cases "row0 = row \<and> row0 \<noteq> r0")
      case True
      then have "?ws1 ! nat row = snd (spin (ws ! nat row))"
        using row Cons.prems(2) by simp
      then have "current_index (?ws1 ! nat row) = (current_index (ws ! nat row) + 1) mod nc"
        using spin_ok[OF ci] by simp
      then show ?thesis using True
        by (simp add: Suc it0 spins_before_Cons mod_add_left_eq add.assoc)
    next
      case False
      then have "?ws1 ! nat row = ws ! nat row"
        using row row0 by (auto simp: nth_list_update)
      then show ?thesis using False by (auto simp: Suc it0 spins_before_Cons)
    qed
    show ?thesis unfolding step IH idx by simp
  qed
qed

lemma distinct_concat_map:
  assumes "distinct xs" "\<And>x. x \<in> set xs \<Longrightarrow> distinct (f x)"
    and "\<And>x y. x \<in> set xs \<Longrightarrow> y \<in> set xs \<Longrightarrow> x \<noteq> y \<Longrightarrow> set (f x) \<inter> set (f y) = {}"
  shows "distinct (concat (map f xs))"
  using assms
proof (induction xs)
  case Nil
  then show ?case by simp
next
  case (Cons x xs)
  have "distinct (concat (map f xs))" using Cons by (intro Cons.IH) auto
  moreover have "distinct (f x)" using Cons.prems(2) by simp
  moreover have "set (f x) \<inter> set (concat (map f xs)) = {}"
  proof -
    have "set (f x) \<inter> set (f y) = {}" if "y \<in> set xs" for y
      using Cons.prems(1) Cons.prems(3)[of x y] that by auto
    then show ?thesis by auto
  qed
  ultimately show ?case by simp
qed

lemma assign_senders_keys:
  "map (\<lambda>a. (fst (snd a), snd (snd a))) (assign_senders nc ws items) = map (receiver_key nc) items"
  by (induction nc ws items rule: assign_senders.induct) (simp_all add: receiver_key_def)

lemma work_items_keys_distinct:
  assumes nc: "0 < nc" "int (length cd) \<le> nc"
    and d: "\<forall>c<length cd. distinct (map snd (cd ! c))"
  shows "distinct (map (receiver_key nc) (work_items cd R))"
proof -
  let ?inner = "\<lambda>c (e::int \<times> grid_limits). map (\<lambda>r. (r * nc + c, snd e)) [0..R - 1]"
  let ?mid = "\<lambda>c. concat (map (?inner c) (cd ! nat c))"
  have eq: "map (receiver_key nc) (work_items cd R) = concat (map ?mid [0..int (length cd) - 1])"
    by (simp add: work_items_def map_concat comp_def receiver_key_def case_prod_unfold)
  have inner: "distinct (?inner c e)" for c e
  proof -
    have "inj_on (\<lambda>r. (r * nc + c, snd e)) (set [0..R - 1])"
      using nc(1) by (auto simp: inj_on_def)
    then show ?thesis by (simp add: distinct_map)
  qed
  have mid: "distinct (?mid c)" if c: "0 \<le> c" "c < int (length cd)" for c
  proof (rule distinct_concat_map)
    from c d have dd: "distinct (map snd (cd ! nat c))" by simp
    then show "distinct (cd ! nat c)" by (simp add: distinct_map)
    show "distinct (?inner c e)" for e by (rule inner)
    show "set (?inner c e) \<inter> set (?inner c e') = {}"
      if "e \<in> set (cd ! nat c)" "e' \<in> set (cd ! nat c)" "e \<noteq> e'" for e e'
    proof -
      from dd that have "snd e \<noteq> snd e'"
        by (metis distinct_map inj_onD)
      then show ?thesis by auto
    qed
  qed
  have outer: "set (?mid c) \<inter> set (?mid c') = {}"
    if "c \<in> set [0..int (length cd) - 1]" "c' \<in> set [0..int (length cd) - 1]" "c \<noteq> c'" for c c'
  proof -
    have m: "fst k mod nc = c" if "k \<in> set (?mid c)" "0 \<le> c" "c < nc" for k c
      using that by auto
    from that nc(2) have "0 \<le> c" "c < nc" "0 \<le> c'" "c' < nc" by auto
    with m that(3) show ?thesis by (metis (no_types, lifting) disjoint_iff)
  qed
  show ?thesis unfolding eq
    by (rule distinct_concat_map) (use mid outer in auto)
qed

lemma band_last_less_first:
  assumes "bands_nonempty bs" "0 \<le> r" "r < r'" "r' < int (length bs)"
  shows "bs ! nat r < band_first bs r'"
proof -
  from assms(1) have s: "sorted_wrt (<) bs" by (simp add: bands_nonempty_def)
  have "bs ! nat r \<le> bs ! nat (r' - 1)"
  proof (cases "r = r' - 1")
    case True
    then show ?thesis by simp
  next
    case False
    with assms have "nat r < nat (r' - 1)" "nat (r' - 1) < length bs" by simp_all
    with s show ?thesis by (simp add: sorted_wrt_iff_nth_less less_imp_le)
  qed
  then show ?thesis using assms(2,3) by (simp add: band_first_def)
qed

lemma column_dependency_limits_distinct:
  assumes rb: "bands_nonempty rb" and cb: "bands_nonempty cb"
    and c: "0 \<le> c" "c < int (length cb)"
  shows "distinct (map snd (column_dependency rb cb c))"
proof -
  let ?xs = "filter (overlap_test rb cb c) [0..int (length rb) - 1]"
  let ?f = "\<lambda>r. start (overlap_limits rb cb c r)"
  have lt: "?f r < ?f r'" if "r \<in> set ?xs" "r' \<in> set ?xs" "r < r'" for r r'
  proof -
    from that have r: "0 \<le> r" "r < int (length rb)" "overlap_test rb cb c r"
      and r': "0 \<le> r'" "r' < int (length rb)" by auto
    have ne: "band_first rb r \<le> rb ! nat r" "band_first cb c \<le> cb ! nat c"
      using bands_nonempty_nth[OF rb r(1,2)] bands_nonempty_nth[OF cb c] by simp_all
    have "?f r \<le> rb ! nat r"
      using r(3) ne by (auto simp: overlap_test_def overlap_limits_def)
    also have "\<dots> < band_first rb r'"
      using band_last_less_first[OF rb r(1) that(3) r'(2)] .
    also have "\<dots> \<le> ?f r'" by (simp add: overlap_limits_def)
    finally show ?thesis .
  qed
  have "sorted_wrt (<) ?xs" by (simp add: sorted_wrt_filter)
  then have "sorted_wrt (\<lambda>r r'. ?f r < ?f r') ?xs"
    by (rule sorted_wrt_mono_rel[rotated]) (use lt in auto)
  then have "sorted_wrt (<) (map ?f ?xs)" by (simp add: sorted_wrt_map)
  then have "distinct (map ?f ?xs)" by (simp add: strict_sorted_iff)
  then have "inj_on ?f (set ?xs)" "distinct ?xs" by (simp_all add: distinct_map)
  then have "inj_on (overlap_limits rb cb c) (set ?xs)"
    by (auto simp: inj_on_def)
  then show ?thesis
    by (simp add: column_dependency_def comp_def distinct_map)
qed

lemma column_dependency_rows:
  "\<forall>e\<in>set (column_dependency rb cb c). 0 \<le> fst e \<and> fst e < int (length rb)"
  by (auto simp: column_dependency_def)

lemma those_map_Some: "those (map (\<lambda>i. Some (f i)) xs) = Some (map f xs)"
  by (induction xs) simp_all

lemma map_of_keyed_upto:
  "0 \<le> i \<Longrightarrow> i < n \<Longrightarrow> map_of (map (\<lambda>i. (i, g i)) [0..n - 1]) i = Some (g i)"
  by (simp add: map_of_map_restrict)

lemma generate_messages_bands:
  fixes N R C :: int and gnsc :: "int \<Rightarrow> int"
  assumes R: "0 < R" and C: "0 < C" and g: "gnsc (R * C) = C"
  defines "plan \<equiv> map (\<lambda>i. (i, band_subgrid N R C i)) [0..R * C - 1]"
  defines "rb \<equiv> map (band_stop N R) [0..R - 1]" and "cb \<equiv> map (band_stop N C) [0..C - 1]"
  shows "generate_messages gnsc plan
     = dependencies_to_messages (find_column_dependencies rb cb) rb cb"
proof -
  have E: "0 < R * C" using R C by simp
  have len: "int (length plan) = R * C" using E by (simp add: plan_def)
  have rows: "map (\<lambda>i. map_option row_stop (map_of plan (i * C))) [0..R - 1]
      = map (\<lambda>i. Some (band_stop N R i)) [0..R - 1]"
  proof (rule map_cong[OF refl])
    fix i assume "i \<in> set [0..R - 1]"
    then have i: "0 \<le> i" "i < R" by simp_all
    have "0 \<le> i * C" "i * C < R * C" using i C by (simp_all add: mult_strict_right_mono)
    then have "map_of plan (i * C) = Some (band_subgrid N R C (i * C))"
      unfolding plan_def by (rule map_of_keyed_upto)
    then show "map_option row_stop (map_of plan (i * C)) = Some (band_stop N R i)"
      using C by (simp add: band_subgrid_def)
  qed
  have cols: "map (\<lambda>i. map_option col_stop (map_of plan i)) [0..C - 1]
      = map (\<lambda>i. Some (band_stop N C i)) [0..C - 1]"
  proof (rule map_cong[OF refl])
    fix i assume "i \<in> set [0..C - 1]"
    then have i: "0 \<le> i" "i < C" by simp_all
    have "1 * C \<le> R * C" using R C by (intro mult_right_mono) simp_all
    then have "C \<le> R * C" by (simp only: mult_1)
    with i have "i < R * C" by linarith
    with i have "map_of plan i = Some (band_subgrid N R C i)"
      unfolding plan_def by (intro map_of_keyed_upto)
    then show "map_option col_stop (map_of plan i) = Some (band_stop N C i)"
      using i by (simp add: band_subgrid_def)
  qed
  have sm: "(R * C) smod C = 0" "(R * C) sdiv C = R"
    using R C E by (simp_all add: smod_nonneg sdiv_nonneg)
  show ?thesis
    unfolding generate_messages_def len g Let_def sm rows cols those_map_Some
    by (simp add: rb_def cb_def)
qed

lemma band_stops_nonempty:
  assumes k: "0 < k" "k \<le> n"
  shows "bands_nonempty (map (band_stop n k) [0..k - 1])"
proof -
  have n: "0 \<le> n" using k by simp
  have size: "band_start n k b \<le> band_stop n k b" for b
  proof -
    have "1 \<le> n div k" using zdiv_mono1[of k n k] k by simp
    then show ?thesis by (simp add: band_stop_def)
  qed
  have mono: "band_stop n k b < band_stop n k b'" if "b < b'" for b b'
  proof -
    have "band_stop n k b < band_start n k (b + 1)" by (simp add: band_start_Suc)
    also have "\<dots> \<le> band_start n k b'" using that n k by (intro band_start_mono) simp_all
    also have "\<dots> \<le> band_stop n k b'" by (rule size)
    finally show ?thesis .
  qed
  have first: "-1 < band_stop n k b" if "0 \<le> b" for b
  proof -
    have "band_start n k 0 \<le> band_start n k b" using that n k by (intro band_start_mono) simp_all
    with size[of b] n k show ?thesis by (simp add: band_start_0)
  qed
  have "sorted_wrt (\<lambda>b b'. band_stop n k b < band_stop n k b') [0..k - 1]"
    by (rule sorted_wrt_mono_rel[OF _ sorted_wrt_upto]) (use mono in auto)
  then show ?thesis
    using first by (auto simp: bands_nonempty_def sorted_wrt_map)
qed

lemma assign_senders_ranks:
  assumes "wheels_ok nc ws" "int (length ws) = R" "\<forall>it\<in>set items. item_ok R nc it"
    and "a \<in> set (assign_senders nc ws items)"
  shows "0 \<le> fst a \<and> fst a < R * nc \<and> 0 \<le> fst (snd a) \<and> fst (snd a) < R * nc"
proof -
  from assms(4) obtain k where k: "k < length items" "a = assign_senders nc ws items ! k"
    by (auto simp: in_set_conv_nth assign_senders_length)
  obtain c row limits r where it: "items ! k = (c, row, limits, r)" by (cases "items ! k") auto
  from k(1) it assms(3) have ok: "item_ok R nc (c, row, limits, r)" by (metis nth_mem)
  then have b: "0 \<le> c" "c < nc" "0 \<le> row" "row < R" "0 \<le> r" "r < R"
    by (simp_all add: item_ok_def)
  let ?w = "(current_index (ws ! nat row) + int (spins_before row (take k items))) mod nc"
  have w: "0 \<le> ?w" "?w < nc" using b(1,2) by simp_all
  from assign_senders_nth[OF assms(1-3) k(1) it] k(2)
  have a: "a = ((if row = r then r * nc + c else row * nc + ?w), r * nc + c, limits)" by simp
  show ?thesis
    using rank_index_bound[OF b(5,6,1,2)] rank_index_bound[OF b(3,4) w] by (simp add: a)
qed

lemma bands_schedule:
  fixes N R C :: int
  assumes R: "0 < R" "R \<le> N" and C: "0 < C" "C \<le> N"
  defines "rb \<equiv> map (band_stop N R) [0..R - 1]" and "cb \<equiv> map (band_stop N C) [0..C - 1]"
  shows "\<exists>as. dependencies_to_messages (find_column_dependencies rb cb) rb cb
            = Some (schedule (nat (R * C)) as)
       \<and> assignments_ok (R * C) as"
proof -
  let ?cd = "find_column_dependencies rb cb"
  let ?as = "assignments ?cd rb cb"
  have lr: "int (length rb) = R" and lc: "int (length cb) = C"
    using R C by (simp_all add: rb_def cb_def)
  have nr: "bands_nonempty rb" and nc: "bands_nonempty cb"
    unfolding rb_def cb_def using R C by (simp_all add: band_stops_nonempty)
  have cd: "?cd = map (column_dependency rb cb) [0..C - 1]"
    by (simp add: find_column_dependencies_eq lc)
  have len: "length ?cd = length cb" using C lc by (simp add: cd)
  have nth: "?cd ! c = column_dependency rb cb (int c)" if "c < length ?cd" for c
  proof -
    from that have "int c < C" using len lc by simp
    with nth_map_upto0[of "int c" C "column_dependency rb cb"] show ?thesis by (simp add: cd)
  qed
  have rows: "\<forall>c<length ?cd. \<forall>e\<in>set (?cd ! c). 0 \<le> fst e \<and> fst e < int (length rb)"
    using column_dependency_rows by (simp add: nth)
  have d: "\<forall>c<length ?cd. distinct (map snd (?cd ! c))"
  proof (intro allI impI)
    fix c assume c: "c < length ?cd"
    then have "int c < int (length cb)" using len by simp
    then show "distinct (map snd (?cd ! c))"
      unfolding nth[OF c] by (intro column_dependency_limits_distinct nr nc) simp_all
  qed
  have eq: "dependencies_to_messages ?cd rb cb = Some (schedule (nat (R * C)) ?as)"
  proof -
    have "length rb * length cb = nat (R * C)"
      using lr lc by (metis nat_int of_nat_mult)
    then show ?thesis
      using dependencies_to_messages_eq[OF len rows] by (simp add: schedule_def)
  qed
  have items: "\<forall>it\<in>set (work_items ?cd R). item_ok R C it"
    using work_items_ok[OF rows] len lc lr by simp
  have w: "wheels_ok C (wheels_start (length rb) C)"
    using C by (simp add: wheels_ok_def wheels_start_def)
  have lw: "int (length (wheels_start (length rb) C)) = R"
    by (simp add: wheels_start_def lr)
  have as: "?as = assign_senders C (wheels_start (length rb) C) (work_items ?cd R)"
    by (simp add: assignments_def lr lc)
  have ranks: "\<forall>a\<in>set ?as. 0 \<le> fst a \<and> fst a < R * C \<and> 0 \<le> fst (snd a) \<and> fst (snd a) < R * C"
    unfolding as using assign_senders_ranks[OF w lw items] by blast
  have "distinct (map (receiver_key C) (work_items ?cd R))"
    using C(1) len lc d by (intro work_items_keys_distinct) simp_all
  then have dist: "distinct (map (\<lambda>a. (fst (snd a), snd (snd a))) ?as)"
    unfolding as assign_senders_keys .
  from eq ranks dist show ?thesis unfolding assignments_ok_def by blast
qed

lemma plan_schedule:
  fixes table :: element_table and gnsc :: "int \<Rightarrow> int" and num_ranks :: int
  defines "E \<equiv> num_effective_ranks num_ranks"
  assumes ranks: "0 < num_ranks" "num_ranks < table_size table"
    and cols: "0 < gnsc E" "gnsc E dvd E"
  shows "\<exists>plan as. get_plan gnsc num_ranks table = Some plan
      \<and> generate_messages gnsc plan = Some (schedule (nat E) as)
      \<and> assignments_ok E as"
proof -
  define C where "C = gnsc E"
  define R where "R = E div C"
  define N where "N = table_size table"
  have C: "0 < C" "C dvd E" using cols by (simp_all add: C_def)
  have RC: "R * C = E" using C(2) by (simp add: R_def)
  have E: "0 < E" "E \<le> num_ranks"
    using effective_ranks_shape[OF ranks(1)] by (simp_all add: E_def Let_def)
  have R: "0 < R"
  proof -
    have "0 < R * C" using RC E by simp
    then show ?thesis using C(1) by (simp add: zero_less_mult_iff)
  qed
  have CE: "C \<le> E" using C E by (simp add: zdvd_imp_le)
  have RE: "R \<le> E"
  proof -
    have "R dvd E" using RC by (metis dvd_triv_left)
    then show ?thesis using E by (simp add: zdvd_imp_le)
  qed
  have N: "R \<le> N" "C \<le> N" using CE RE E ranks(2) by (simp_all add: N_def)
  let ?plan = "map (\<lambda>i. (i, band_subgrid N R C i)) [0..R * C - 1]"
  have gp: "get_plan gnsc num_ranks table = Some ?plan"
    using get_plan_bands[OF ranks] cols by (simp add: E_def C_def R_def N_def RC[unfolded R_def C_def E_def])
  have g: "gnsc (R * C) = C" unfolding RC by (simp add: C_def)
  from bands_schedule[OF R N(1) C(1) N(2)]
    generate_messages_bands[where gnsc = gnsc and R = R and C = C and N = N, OF R C(1) g]
  obtain as where "generate_messages gnsc ?plan = Some (schedule (nat (R * C)) as)"
    "assignments_ok (R * C) as"
    by auto
  with gp show ?thesis unfolding RC by blast
qed









lemma pending_of_messages:
  "concat (map (pending_messages p) (pending_of a)) = assignment_messages p a"
  by (cases a) (auto simp: assignment_messages_def)

lemma schedule_view: "schedule n as = view n (concat (map pending_of as))"
proof -
  have "rank_messages p as = rank_view (concat (map pending_of as)) p" for p
    by (induction as) (simp_all add: rank_messages_def rank_view_def pending_of_messages)
  then show ?thesis by (simp add: schedule_def view_def)
qed

lemma pending_of_ok:
  assumes "0 \<le> fst a \<and> fst a < n \<and> 0 \<le> fst (snd a) \<and> fst (snd a) < n"
  shows "\<forall>x\<in>set (pending_of a). pending_ok n x"
  using assms by (cases a) auto

lemma pending_messages_short: "length (pending_messages p x) \<le> 1"
  by (cases x) auto

lemma rank_view_head:
  assumes "rank_view pend p = m # rest"
  shows "\<exists>pre x post. pend = pre @ x # post \<and> (\<forall>y\<in>set pre. pending_messages p y = [])
     \<and> pending_messages p x = [m] \<and> rest = rank_view post p"
  using assms
proof (induction pend)
  case Nil
  then show ?case by (simp add: rank_view_def)
next
  case (Cons y ys)
  show ?case
  proof (cases "pending_messages p y = []")
    case True
    with Cons.prems have "rank_view ys p = m # rest" by (simp add: rank_view_def)
    from Cons.IH[OF this] obtain pre x post where
      "ys = pre @ x # post" "\<forall>y\<in>set pre. pending_messages p y = []"
      "pending_messages p x = [m]" "rest = rank_view post p" by blast
    with True show ?thesis by (intro exI[of _ "y # pre"] exI[of _ x] exI[of _ post]) simp
  next
    case False
    with pending_messages_short[of p y] obtain m' where m': "pending_messages p y = [m']"
      by (cases "pending_messages p y") auto
    with Cons.prems have "m' = m" "rest = rank_view ys p" by (simp_all add: rank_view_def)
    with m' show ?thesis by (intro exI[of _ "[]"] exI[of _ y] exI[of _ ys]) simp
  qed
qed

lemma rank_view_append: "rank_view (xs @ ys) p = rank_view xs p @ rank_view ys p"
  by (simp add: rank_view_def)

lemma rank_view_Cons: "rank_view (x # xs) p = pending_messages p x @ rank_view xs p"
  by (simp add: rank_view_def)

lemma rank_view_silent: "\<forall>y\<in>set pre. pending_messages p y = [] \<Longrightarrow> rank_view pre p = []"
  by (simp add: rank_view_def)

lemma view_nth: "p < n \<Longrightarrow> view n pend ! p = rank_view pend (int p)"
  by (simp add: view_def)

lemma length_view: "length (view n pend) = n"
  by (simp add: view_def)

lemma view_Nil_consumed: "all_consumed (view n [])"
  by (simp add: all_consumed_def view_def rank_view_def list_all_iff)

lemma first_unique:
  assumes "pre1 @ x1 # post1 = pre2 @ x2 # post2" "x1 \<notin> set pre2" "x2 \<notin> set pre1"
  shows "pre1 = pre2 \<and> x1 = x2 \<and> post1 = post2"
  using assms
proof (induction pre1 arbitrary: pre2)
  case Nil
  then show ?case by (cases pre2) auto
next
  case (Cons a as)
  then show ?case by (cases pre2) auto
qed

lemma view_progress:
  assumes ok: "\<forall>x\<in>set pend. pending_ok (int n) x" and ne: "pend \<noteq> []"
  shows "local_ready (view n pend) \<or> transfer_ready (view n pend)"
proof -
  from ne obtain x rest where pend: "pend = x # rest" by (cases pend) auto
  with ok have okx: "pending_ok (int n) x" by simp
  show ?thesis
  proof (cases x)
    case (Transfer s t g)
    with okx have b: "0 \<le> s" "s < int n" "0 \<le> t" "t < int n" "s \<noteq> t" by simp_all
    then have n: "nat s < n" "nat t < n" "nat s \<noteq> nat t" by simp_all
    have vs: "view n pend ! nat s
        = \<lparr>message_dir = send, target = t, msg_range = g\<rparr> # rank_view rest s"
      using n b by (simp add: view_nth pend rank_view_Cons Transfer)
    have vt: "view n pend ! nat t
        = \<lparr>message_dir = receive, target = s, msg_range = g\<rparr> # rank_view rest t"
      using n b by (simp add: view_nth pend rank_view_Cons Transfer)
    have "transfer_ready (view n pend)"
      unfolding transfer_ready_def length_view
      by (rule exI[of _ "nat s"], rule exI[of _ "nat t"],
          rule exI[of _ "\<lparr>message_dir = send, target = t, msg_range = g\<rparr>"],
          rule exI[of _ "rank_view rest s"],
          rule exI[of _ "\<lparr>message_dir = receive, target = s, msg_range = g\<rparr>"],
          rule exI[of _ "rank_view rest t"])
         (use n b vs vt in simp)
    then show ?thesis ..
  next
    case (Local_receive q g)
    with okx have b: "0 \<le> q" "q < int n" by simp_all
    then have "view n pend ! nat q
        = \<lparr>message_dir = receive, target = q, msg_range = g\<rparr> # rank_view rest q"
      by (simp add: view_nth pend rank_view_Cons Local_receive)
    then have "local_ready (view n pend)"
      unfolding local_ready_def length_view using b
      by (intro exI[of _ "nat q"]) simp
    then show ?thesis ..
  next
    case (Local_send q g)
    with okx have b: "0 \<le> q" "q < int n" by simp_all
    then have "view n pend ! nat q
        = \<lparr>message_dir = send, target = q, msg_range = g\<rparr> # rank_view rest q"
      by (simp add: view_nth pend rank_view_Cons Local_send)
    then have "local_ready (view n pend)"
      unfolding local_ready_def length_view using b
      by (intro exI[of _ "nat q"]) simp
    then show ?thesis ..
  qed
qed

lemma ready_step:
  "local_ready cfg \<or> transfer_ready cfg \<Longrightarrow> \<exists>cfg'. replay_step cfg cfg'"
  unfolding local_ready_def transfer_ready_def
  by (auto intro: replay_step.intros)

lemma view_remove_local:
  assumes pend: "pend = pre @ x # post" and "\<forall>y\<in>set pre. pending_messages (int p) y = []"
    and "\<forall>q. q \<noteq> int p \<longrightarrow> pending_messages q x = []" and "p < n"
  shows "(view n pend)[p := rank_view post (int p)] = view n (pre @ post)"
proof (rule nth_equalityI)
  show "length ((view n pend)[p := rank_view post (int p)]) = length (view n (pre @ post))"
    by (simp add: length_view)
next
  fix i assume "i < length ((view n pend)[p := rank_view post (int p)])"
  then have i: "i < n" by (simp add: length_view)
  show "(view n pend)[p := rank_view post (int p)] ! i = view n (pre @ post) ! i"
  proof (cases "i = p")
    case True
    then show ?thesis using i assms(2)
      by (simp add: length_view view_nth rank_view_append rank_view_silent)
  next
    case False
    then have "pending_messages (int i) x = []" using assms(3) by simp
    then show ?thesis using i False
      by (simp add: view_nth pend rank_view_append rank_view_Cons)
  qed
qed

lemma view_remove_transfer:
  assumes pend: "pend = pre @ Transfer (int s) (int t) g # post"
    and "\<forall>y\<in>set pre. pending_messages (int s) y = []"
    and "\<forall>y\<in>set pre. pending_messages (int t) y = []"
    and "s < n" "t < n" "s \<noteq> t"
  shows "(view n pend)[s := rank_view post (int s), t := rank_view post (int t)]
     = view n (pre @ post)"
proof (rule nth_equalityI)
  show "length ((view n pend)[s := rank_view post (int s), t := rank_view post (int t)])
      = length (view n (pre @ post))"
    by (simp add: length_view)
next
  fix i assume "i < length ((view n pend)[s := rank_view post (int s), t := rank_view post (int t)])"
  then have i: "i < n" by (simp add: length_view)
  consider "i = s" | "i = t" | "i \<noteq> s" "i \<noteq> t" by blast
  then show "(view n pend)[s := rank_view post (int s), t := rank_view post (int t)] ! i
      = view n (pre @ post) ! i"
  proof cases
    case 1
    then show ?thesis using i assms(2,6)
      by (simp add: length_view view_nth rank_view_append rank_view_silent)
  next
    case 2
    then show ?thesis using i assms(3,6)
      by (simp add: length_view view_nth rank_view_append rank_view_silent)
  next
    case 3
    then show ?thesis using i
      by (simp add: view_nth pend rank_view_append rank_view_Cons)
  qed
qed

lemma local_head_is_local:
  assumes "pending_ok n x" "pending_messages p x = [m]" "target m = p"
  shows "\<forall>q. q \<noteq> p \<longrightarrow> pending_messages q x = []"
  using assms by (cases x) (auto split: if_splits)

lemma send_head_is_transfer:
  assumes "pending_ok n x" "pending_messages s x = [m]" "message_dir m = send" "target m = t"
    "s \<noteq> t"
  shows "x = Transfer s t (msg_range m)"
  using assms by (cases x) (auto split: if_splits)

lemma receive_head_is_transfer:
  assumes "pending_ok n x" "pending_messages t x = [m]" "message_dir m = receive" "target m = s"
    "s \<noteq> t"
  shows "x = Transfer s t (msg_range m)"
  using assms by (cases x) (auto split: if_splits)

lemma view_step:
  assumes ok: "\<forall>x\<in>set pend. pending_ok (int n) x" and step: "replay_step (view n pend) cfg'"
  shows "\<exists>pend'. cfg' = view n pend' \<and> (\<forall>x\<in>set pend'. pending_ok (int n) x)
     \<and> length pend' < length pend"
  using step
proof (cases rule: replay_step.cases)
  case (local_copy p m rest)
  then have p: "p < n" by (simp add: length_view)
  with local_copy have "rank_view pend (int p) = m # rest" by (simp add: view_nth)
  from rank_view_head[OF this] obtain pre x post where
    d: "pend = pre @ x # post" "\<forall>y\<in>set pre. pending_messages (int p) y = []"
      "pending_messages (int p) x = [m]" "rest = rank_view post (int p)" by blast
  from ok d(1) have okx: "pending_ok (int n) x" by simp
  from local_head_is_local[OF okx d(3) local_copy(4)]
  have "(view n pend)[p := rank_view post (int p)] = view n (pre @ post)"
    using d(1,2) p by (intro view_remove_local) auto
  then have "cfg' = view n (pre @ post)" using local_copy(1) d(4) by simp
  moreover have "\<forall>x\<in>set (pre @ post). pending_ok (int n) x" using ok d(1) by auto
  moreover have "length (pre @ post) < length pend" using d(1) by simp
  ultimately show ?thesis by blast
next
  case (transfer s t ms rest_s mt rest_t)
  then have st: "s < n" "t < n" by (simp_all add: length_view)
  have ne: "int s \<noteq> int t" using transfer(4) by simp
  from transfer st have "rank_view pend (int s) = ms # rest_s" by (simp add: view_nth)
  from rank_view_head[OF this] obtain pre1 x1 post1 where
    d1: "pend = pre1 @ x1 # post1" "\<forall>y\<in>set pre1. pending_messages (int s) y = []"
      "pending_messages (int s) x1 = [ms]" "rest_s = rank_view post1 (int s)" by blast
  from transfer st have "rank_view pend (int t) = mt # rest_t" by (simp add: view_nth)
  from rank_view_head[OF this] obtain pre2 x2 post2 where
    d2: "pend = pre2 @ x2 # post2" "\<forall>y\<in>set pre2. pending_messages (int t) y = []"
      "pending_messages (int t) x2 = [mt]" "rest_t = rank_view post2 (int t)" by blast
  from ok d1(1) have ok1: "pending_ok (int n) x1" by simp
  from ok d2(1) have ok2: "pending_ok (int n) x2" by simp
  have x1: "x1 = Transfer (int s) (int t) (msg_range ms)"
    using send_head_is_transfer[OF ok1 d1(3) transfer(6,7) ne] .
  have x2: "x2 = Transfer (int s) (int t) (msg_range mt)"
    using receive_head_is_transfer[OF ok2 d2(3) transfer(9,10) ne] .
  have "pending_messages (int t) x1 \<noteq> []" using ne by (simp add: x1)
  then have n1: "x1 \<notin> set pre2" using d2(2) by auto
  have "pending_messages (int s) x2 \<noteq> []" using ne by (simp add: x2)
  then have n2: "x2 \<notin> set pre1" using d1(2) by auto
  from first_unique[OF d1(1)[symmetric, unfolded d2(1)] n1 n2]
  have same: "pre1 = pre2" "x1 = x2" "post1 = post2" by simp_all
  have "(view n pend)[s := rank_view post1 (int s), t := rank_view post1 (int t)]
     = view n (pre1 @ post1)"
    using d1(1,2) d2(2) st transfer(4) unfolding x1 same(1)
    by (intro view_remove_transfer[where g = "msg_range ms"]) auto
  then have "cfg' = view n (pre1 @ post1)"
    using transfer(1) d1(4) d2(4) same(3) by simp
  moreover have "\<forall>x\<in>set (pre1 @ post1). pending_ok (int n) x" using ok d1(1) by auto
  moreover have "length (pre1 @ post1) < length pend" using d1(1) by simp
  ultimately show ?thesis by blast
qed

lemma view_reachable:
  assumes "replay_step\<^sup>*\<^sup>* cfg0 cfg" "cfg0 = view n pend" "\<forall>x\<in>set pend. pending_ok (int n) x"
  shows "\<exists>pend'. cfg = view n pend' \<and> (\<forall>x\<in>set pend'. pending_ok (int n) x)"
  using assms
proof (induction rule: rtranclp_induct)
  case base
  then show ?case by blast
next
  case (step y z)
  then obtain pend1 where "y = view n pend1" "\<forall>x\<in>set pend1. pending_ok (int n) x" by blast
  with view_step[of pend1 n z] step.hyps(2) show ?case by blast
qed

lemma view_completes:
  assumes "\<forall>x\<in>set pend. pending_ok (int n) x"
  shows "\<exists>cfg. replay_step\<^sup>*\<^sup>* (view n pend) cfg \<and> all_consumed cfg"
  using assms
proof (induction "length pend" arbitrary: pend rule: less_induct)
  case less
  show ?case
  proof (cases "pend = []")
    case True
    then show ?thesis using view_Nil_consumed by blast
  next
    case False
    from view_progress[OF less.prems False] ready_step
    obtain cfg' where s: "replay_step (view n pend) cfg'" by blast
    from view_step[OF less.prems s] obtain pend' where
      p: "cfg' = view n pend'" "\<forall>x\<in>set pend'. pending_ok (int n) x" "length pend' < length pend"
      by blast
    from less.hyps[OF p(3) p(2)] obtain cfg where
      "replay_step\<^sup>*\<^sup>* (view n pend') cfg" "all_consumed cfg" by blast
    with s p(1) show ?thesis by (meson converse_rtranclp_into_rtranclp)
  qed
qed

lemma remaining_update:
  "p < length cfg \<Longrightarrow> remaining (cfg[p := l]) + length (cfg ! p) = remaining cfg + length l"
proof (induction cfg arbitrary: p)
  case Nil
  then show ?case by simp
next
  case (Cons a cfg)
  then show ?case by (cases p) (auto simp: remaining_def)
qed

lemma replay_step_remaining:
  assumes "replay_step cfg cfg'"
  shows "remaining cfg' < remaining cfg"
  using assms
proof (cases rule: replay_step.cases)
  case (local_copy p m rest)
  from remaining_update[OF local_copy(2), of rest] local_copy show ?thesis by simp
next
  case (transfer s t ms rest_s mt rest_t)
  let ?c1 = "cfg[s := rest_s]"
  have t1: "?c1 ! t = cfg ! t" "t < length ?c1" using transfer(3,4) by simp_all
  from remaining_update[OF transfer(2), of rest_s] remaining_update[OF t1(2), of rest_t] t1(1)
  show ?thesis using transfer by simp
qed

section \<open>Proofs: tasks\<close>

declare bit_length.simps [simp del]

lemma dmul_Finite: "dmul (Finite m e) (Finite n f) = round_double (m * n) (e + f)"
  by (simp add: dmul_def)

lemma dadd_Finite:
  "dadd (Finite m e) (Finite n f)
     = round_double (m * 2 ^ nat (e - min e f) + n * 2 ^ nat (f - min e f)) (min e f)"
  by (simp add: dadd_def Let_def)

text \<open>The facts that evaluate the arithmetic at numerals.\<close>

lemmas double_eval = round_double_def round_magnitude_def round_shift_def bit_length.simps
  Let_def double_of_int_def one_millionth_def dmul_Finite dadd_Finite dceil_def
  double_to_int_def int_min_def int_max_def wrap_int_def to_size_t_def dpositive_def dpow_def

text \<open>Rounding keeps the sign, so the sizes computed are not negative.\<close>

lemma round_shift_nonneg: "0 \<le> a \<Longrightarrow> 0 \<le> round_shift a k"
proof -
  assume "0 \<le> a"
  then have "0 \<le> a div 2 ^ k" by (simp add: pos_imp_zdiv_nonneg_iff)
  then show ?thesis by (simp add: round_shift_def Let_def)
qed

lemma round_magnitude_nonneg:
  "0 \<le> a \<Longrightarrow> round_magnitude a e = (a', e') \<Longrightarrow> 0 \<le> a'"
  by (auto simp: round_magnitude_def Let_def round_shift_nonneg split: if_splits)

lemma dnonneg_simps:
  "dnonneg (Finite m e) \<longleftrightarrow> 0 \<le> m" "dnonneg PInf" "\<not> dnonneg NInf" "\<not> dnonneg NaN"
  by (simp_all add: dnonneg_def)

lemma round_double_nonneg: "0 \<le> m \<Longrightarrow> dnonneg (round_double m e)"
proof -
  assume m: "0 \<le> m"
  obtain a e' where r: "round_magnitude \<bar>m\<bar> e = (a, e')" by (cases "round_magnitude \<bar>m\<bar> e")
  then have "0 \<le> a" using round_magnitude_nonneg[of "\<bar>m\<bar>" e a e'] by simp
  then show ?thesis using m r by (simp add: round_double_def dnonneg_simps)
qed

lemma double_of_int_nonneg: "0 \<le> n \<Longrightarrow> dnonneg (double_of_int n)"
  by (simp add: double_of_int_def round_double_nonneg)

lemma dmul_nonneg_finite:
  assumes "dnonneg x" and "0 < n"
  shows "dnonneg (dmul x (Finite n f))"
proof (cases x)
  case (Finite a b)
  then have "0 \<le> a * n" using assms by (simp add: dnonneg_simps)
  then show ?thesis using Finite by (simp add: dmul_Finite round_double_nonneg)
next
  case PInf
  then show ?thesis using assms(2)
    by (simp add: dmul_def dsign_def infinity_of_def dnonneg_simps)
qed (use assms in \<open>simp_all add: dnonneg_simps\<close>)

lemma dmul_nonneg:
  assumes "dnonneg x" and "dnonneg y" and "dmul x y = Finite m e"
  shows "0 \<le> m"
proof (cases x)
  case x: (Finite a b)
  show ?thesis
  proof (cases y)
    case y: (Finite c d)
    have "0 \<le> a * c" using assms(1,2) x y by (simp add: dnonneg_simps)
    then have "dnonneg (round_double (a * c) (b + d))" by (rule round_double_nonneg)
    then show ?thesis using assms(3) x y by (simp add: dmul_Finite dnonneg_simps)
  qed (use assms x in \<open>auto simp: dnonneg_simps dmul_def dsign_def infinity_of_def
        split: if_splits\<close>)
qed (use assms in \<open>auto simp: dnonneg_simps dmul_def dsign_def infinity_of_def
      split: if_splits double.splits\<close>)

lemma dadd_nonneg:
  assumes "dnonneg x" and "dnonneg y"
  shows "dnonneg (dadd x y)"
proof (cases x)
  case x: (Finite a b)
  show ?thesis
  proof (cases y)
    case y: (Finite c d)
    have "0 \<le> a * 2 ^ nat (b - min b d) + c * 2 ^ nat (d - min b d)"
      using assms x y by (simp add: dnonneg_simps)
    then show ?thesis using x y by (simp add: dadd_Finite round_double_nonneg)
  qed (use assms x in \<open>simp_all add: dnonneg_simps dadd_def\<close>)
qed (use assms in \<open>auto simp: dnonneg_simps dadd_def split: double.splits\<close>)

lemma one_millionth_nonneg: "dnonneg x \<Longrightarrow> dnonneg (dmul x one_millionth)"
  by (simp add: one_millionth_def dmul_nonneg_finite)

lemma get_MB_int_nonneg: "get_MB_int P n = Some y \<Longrightarrow> dnonneg y"
  by (auto simp: get_MB_int_def Let_def to_size_t_def one_millionth_nonneg double_of_int_nonneg
      split: if_splits)

lemma get_MB_double_nonneg: "get_MB_double P x = Some y \<Longrightarrow> dnonneg y"
proof -
  assume a: "get_MB_double P x = Some y"
  then have p: "dpositive x" by (auto simp: get_MB_double_def split: if_splits)
  then have "dnonneg x" by (cases x) (simp_all add: dpositive_def dnonneg_simps)
  moreover have "double_of_int (sizeof P) = Finite (sizeof P) 0" "0 < sizeof P"
    by (cases P; simp add: double_eval)+
  ultimately have "dnonneg (dmul x (double_of_int (sizeof P)))"
    by (simp add: dmul_nonneg_finite)
  then show ?thesis using a p by (auto simp: get_MB_double_def Let_def one_millionth_nonneg)
qed

lemma get_element_size_MB_nonneg: "get_element_size_MB P pde = Some s \<Longrightarrow> dnonneg s"
  by (auto simp: get_element_size_MB_def Let_def split: list.splits option.splits
      intro!: dadd_nonneg dest: get_MB_int_nonneg get_MB_double_nonneg)

text \<open>\<open>std::ceil\<close> followed by the conversion to \<open>int\<close> is the ceiling of the number,
  as long as that is an \<open>int\<close>.\<close>

lemma dceil_to_int:
  assumes "0 \<le> m" and "\<lceil>dyadic m e\<rceil> \<le> int_max"
  shows "double_to_int (dceil (Finite m e)) = \<lceil>dyadic m e\<rceil>"
proof (cases "0 \<le> e")
  case True
  have "dyadic m e = real_of_int (m * 2 ^ nat e)" using True by (simp add: dyadic_def)
  then have c: "\<lceil>dyadic m e\<rceil> = m * 2 ^ nat e" by (simp only: ceiling_of_int)
  have "0 \<le> m * 2 ^ nat e" using assms(1) by simp
  then show ?thesis using True assms(2) c
    by (simp add: dceil_def double_to_int_def Let_def int_min_def)
next
  case False
  define k where "k = nat (- e)"
  have "dyadic m e = real_of_int m / real_of_int (2 ^ k)"
    using False by (simp add: dyadic_def k_def)
  then have c: "\<lceil>dyadic m e\<rceil> = - ((- m) div 2 ^ k)"
    by (simp only: ceiling_divide_eq_div)
  have "(- m) div 2 ^ k \<le> 0" using assms(1) by (simp add: div_nonpos_pos_le0)
  then have "0 \<le> - ((- m) div 2 ^ k)" by simp
  then show ?thesis using False assms(2) c
    by (simp add: dceil_def double_to_int_def Let_def int_min_def k_def)
qed

text \<open>The estimate for the PDE of two dimensions, degree 2 and two terms.\<close>

lemma example_elem_size: "double_to_int (dpow 2 2) = 4"
  by (simp add: double_eval)

lemma example_reduction: "get_MB_int Double 8 = Some (Finite 4722366482869645 (- 66))"
  by (simp add: get_MB_int_def double_eval)

lemma example_workspaces:
  "dmul (dmul (double_of_int 1) (double_of_int 2)) (double_of_int 4) = Finite 8 0"
  by (simp add: double_eval)

lemma example_intermediate:
  "get_MB_double Double (Finite 8 0) = Some (Finite 4722366482869645 (- 66))"
  by (simp add: get_MB_double_def double_eval)

lemma example_xy: "get_MB_int Double 4 = Some (Finite 4722366482869645 (- 67))"
  by (simp add: get_MB_int_def double_eval)

lemma example_sum:
  "dadd (dadd (Finite 4722366482869645 (- 66)) (Finite 4722366482869645 (- 66)))
     (Finite 4722366482869645 (- 67)) = Finite 5902958103587056 (- 65)"
  by (simp add: double_eval)

lemma example_pde_size:
  "get_element_size_MB Double example_pde = Some (Finite 5902958103587056 (- 65))"
  by (simp add: get_element_size_MB_def example_pde_def wrap_int_def
      example_elem_size example_reduction example_workspaces example_intermediate example_xy
      example_sum)

lemma example_problem_size:
  "dmul (Finite 5902958103587056 (- 65)) (dmul (double_of_int 170) (double_of_int 170))
     = Finite 5206161169240293 (- 50)"
  by (simp add: double_eval)

lemma example_problem_ceil: "double_to_int (dceil (Finite 5206161169240293 (- 50))) = 5"
  by (simp add: double_eval)

text \<open>The estimate for a PDE of three dimensions, degree 1 and three terms: 80 bytes
  for each element pair, and a \<open>double\<close> just above \<open>8e-05\<close>.  For 750 elements the
  estimate is just above 45, where the product of the numbers is 45.\<close>

lemma uniform_elem_size: "double_to_int (dpow 1 3) = 1"
  by (simp add: double_eval)

lemma uniform_reduction: "get_MB_int Double 3 = Some (Finite 7083549724304468 (- 68))"
  by (simp add: get_MB_int_def double_eval)

lemma uniform_workspaces:
  "dmul (dmul (double_of_int 2) (double_of_int 3)) (double_of_int 1) = Finite 6 0"
  by (simp add: double_eval)

lemma uniform_intermediate:
  "get_MB_double Double (Finite 6 0) = Some (Finite 7083549724304468 (- 67))"
  by (simp add: get_MB_double_def double_eval)

lemma uniform_xy: "get_MB_int Double 1 = Some (Finite 4722366482869645 (- 69))"
  by (simp add: get_MB_int_def double_eval)

lemma uniform_sum:
  "dadd (dadd (Finite 7083549724304468 (- 68)) (Finite 7083549724304468 (- 67)))
     (Finite 4722366482869645 (- 69)) = Finite 5902958103587057 (- 66)"
  by (simp add: double_eval)

lemma uniform_pde_size:
  "get_element_size_MB Double (uniform_pde 3 3 2 1) = Some (Finite 5902958103587057 (- 66))"
  by (simp add: get_element_size_MB_def uniform_pde_def eval_nat_numeral wrap_int_def
      uniform_elem_size uniform_reduction uniform_workspaces uniform_intermediate uniform_xy
      uniform_sum)

lemma uniform_problem_size:
  "dmul (Finite 5902958103587057 (- 66)) (dmul (double_of_int 750) (double_of_int 750))
     = Finite 6333186975989761 (- 47)"
  by (simp add: double_eval)

lemma uniform_problem_ceil: "double_to_int (dceil (Finite 6333186975989761 (- 47))) = 46"
  by (simp add: double_eval)

text \<open>With a ceiling of 46 MB the estimate is not below the ceiling, and one task is
  made; with a ceiling of 1 MB there are 46 tasks.\<close>

lemma estimate_is_rounded:
  "get_num_tasks Double (replicate 750 []) (uniform_pde 3 3 2 1) 1 46 = Some 1
   \<and> get_num_tasks Double (replicate 750 []) (uniform_pde 3 3 2 1) 1 1 = Some 46"
  by (simp add: get_num_tasks_def table_size_def uniform_pde_size uniform_problem_size
      uniform_problem_ceil signed_divide_int_def signed_modulo_int_def)

lemma linear_index_split:
  assumes "0 < n" "0 \<le> k"
  shows "(k sdiv n) * n + k smod n = (k::int)"
  using assms by (simp add: sdiv_nonneg smod_nonneg)

lemma tasks_cover_prefix:
  fixes table :: element_table
  defines "N \<equiv> table_size table"
  assumes N: "0 < N" and T: "0 < num_tasks" "num_tasks \<le> N * N"
  shows "\<exists>tasks. assign_elements_to_tasks table num_tasks = Some tasks
     \<and> int (length tasks) = num_tasks
     \<and> (\<forall>k. (\<exists>t\<in>set tasks. task_covers N t k)
            \<longleftrightarrow> 0 \<le> k \<and> k < num_tasks * (N * N div num_tasks))"
proof -
  define e where "e = N * N div num_tasks"
  have e: "1 \<le> e" using zdiv_mono1[of num_tasks "N * N" num_tasks] T by (simp add: e_def)
  have se: "(N * N) sdiv num_tasks = e"
    using N T by (simp add: e_def sdiv_nonneg)
  define mk where "mk = (\<lambda>i. \<lparr>elem_start = (i * e) sdiv N, elem_end = ((i + 1) * e - 1) sdiv N,
      conn_start = (i * e) smod N, conn_end = ((i + 1) * e - 1) smod N\<rparr>)"
  have a: "assign_elements_to_tasks table num_tasks = Some (map mk [0..num_tasks - 1])"
    using N T by (simp add: assign_elements_to_tasks_def Let_def N_def[symmetric] se mk_def)
  have cov: "task_covers N (mk i) k \<longleftrightarrow> i * e \<le> k \<and> k < (i + 1) * e" if "0 \<le> i" for i k
  proof -
    have 1: "0 \<le> i * e" using that e by simp
    have "1 * 1 \<le> (i + 1) * e" using that e by (intro mult_mono) simp_all
    then have 2: "0 \<le> (i + 1) * e - 1" by simp
    show ?thesis
      unfolding task_covers_def mk_def
      using linear_index_split[OF N 1] linear_index_split[OF N 2] by simp
  qed
  have "(\<exists>t\<in>set (map mk [0..num_tasks - 1]). task_covers N t k)
            \<longleftrightarrow> 0 \<le> k \<and> k < num_tasks * e" for k
  proof
    assume "\<exists>t\<in>set (map mk [0..num_tasks - 1]). task_covers N t k"
    then obtain i where i: "0 \<le> i" "i < num_tasks" "task_covers N (mk i) k" by auto
    then have k: "i * e \<le> k" "k < (i + 1) * e" by (simp_all add: cov)
    have "0 \<le> i * e" using i(1) e by simp
    moreover have "(i + 1) * e \<le> num_tasks * e" using i(2) e by (intro mult_right_mono) simp_all
    ultimately show "0 \<le> k \<and> k < num_tasks * e" using k by simp
  next
    assume k: "0 \<le> k \<and> k < num_tasks * e"
    let ?i = "k div e"
    have ep: "0 < e" using e by simp
    have i0: "0 \<le> ?i" using k ep by (simp add: pos_imp_zdiv_nonneg_iff)
    have lo: "?i * e \<le> k"
      using pos_mod_sign[OF ep, of k] div_mult_mod_eq[of k e] by linarith
    have "(?i + 1) * e = ?i * e + e" by (simp add: algebra_simps)
    then have hi: "k < (?i + 1) * e"
      using pos_mod_bound[OF ep, of k] div_mult_mod_eq[of k e] by linarith
    have "?i < num_tasks"
    proof (rule ccontr)
      assume "\<not> ?i < num_tasks"
      then have "num_tasks * e \<le> ?i * e" using ep by (simp add: mult_right_mono)
      with lo k show False by simp
    qed
    with i0 lo hi show "\<exists>t\<in>set (map mk [0..num_tasks - 1]). task_covers N t k"
      by (auto simp: cov intro!: bexI[of _ ?i])
  qed
  with a T show ?thesis by (auto simp: e_def)
qed

section \<open>Proofs: wavelet to real space\<close>

declare recursive_kron.simps [simp del]

lemma wrap_int_id: "int_min \<le> x \<Longrightarrow> x \<le> int_max \<Longrightarrow> wrap_int x = x"
  by (simp add: wrap_int_def int_min_def int_max_def)

lemma read_at_replicate: "0 \<le> j \<Longrightarrow> j < int n \<Longrightarrow> read_at (replicate n x) j = Some x"
  by (simp add: read_at_def)

lemma shape_ops_simps:
  "mat_nrows shape_ops m = fst m" "mat_ncols shape_ops m = snd m"
  "mat_view shape_ops m r1 r2 c1 c2 =
     (if 0 \<le> r1 \<and> r1 \<le> r2 \<and> r2 < fst m \<and> 0 \<le> c1 \<and> c1 \<le> c2 \<and> c2 < snd m
      then Some (r2 - r1 + 1, c2 - c1 + 1) else None)"
  "mat_kron shape_ops a b = Some (fst a * fst b, snd a * snd b)"
  "mat_times_vec shape_ops m v = (if snd m = v then Some (fst m) else None)"
  "vec_plus shape_ops x y = (if x = y then Some x else None)"
  "vec_view shape_ops v i j = (if 0 \<le> i \<and> i \<le> j \<and> j < v then Some (j - i + 1) else None)"
  "vec_zero shape_ops n = (if 0 \<le> n then Some n else None)"
  by (simp_all add: shape_ops_def)

text \<open>\<open>kron_matrix_MB\<close> reads the row and column counts of the views and nothing else
  of them.\<close>

lemma kron_matrix_MB_shapes:
  "kron_matrix_MB ops P ms
     = kron_matrix_MB shape_ops P (map (\<lambda>m. (mat_nrows ops m, mat_ncols ops m)) ms)"
  by (simp add: kron_matrix_MB_def fold_map comp_def shape_ops_simps)

text \<open>A step of the loop that goes on has passed the assertion, and so has every step
  of a run that returns.\<close>

lemma realspace_step_checked:
  assumes "realspace_step ops P pde rst g1 wave table limit stride i st = Some rs"
  shows "st \<noteq> None \<and> (\<exists>ms. element_kron_matrices ops pde rst g1 table i = Some ms
            \<and> kron_matrix_MB ops P ms \<le> limit)"
  using assms by (auto simp: realspace_step_def split: option.splits if_splits)

lemma realspace_loop_checked:
  assumes "fold (realspace_step ops P pde rst g1 wave table limit stride) xs st = Some rs"
  shows "st \<noteq> None \<and>
    (\<forall>i\<in>set xs. \<exists>ms. element_kron_matrices ops pde rst g1 table i = Some ms
            \<and> kron_matrix_MB ops P ms \<le> limit)"
  using assms
proof (induction xs arbitrary: st)
  case Nil
  then show ?case by simp
next
  case (Cons i xs)
  from Cons.IH[of "realspace_step ops P pde rst g1 wave table limit stride i st"] Cons.prems
  have s: "realspace_step ops P pde rst g1 wave table limit stride i st \<noteq> None"
    and r: "\<forall>i\<in>set xs. \<exists>ms. element_kron_matrices ops pde rst g1 table i = Some ms
            \<and> kron_matrix_MB ops P ms \<le> limit"
    by simp_all
  from s obtain rs' where
    "realspace_step ops P pde rst g1 wave table limit stride i st = Some rs'" by auto
  from realspace_step_checked[OF this] r show ?case by simp
qed

lemma returned_run_checked:
  assumes "wavelet_to_realspace ops P pde rst g1 wave table limit = Some rs"
    and "0 \<le> i" and "i < table_size table"
  shows "0 < limit \<and> (\<exists>ms. element_kron_matrices ops pde rst g1 table i = Some ms
            \<and> kron_matrix_MB ops P ms \<le> limit)"
proof -
  from assms(1) have l: "0 < limit"
    by (auto simp: wavelet_to_realspace_def split: if_splits)
  with assms(1) obtain stride s0 where
    "fold (realspace_step ops P pde rst g1 wave table limit stride)
       [0..table_size table - 1] (Some s0) = Some rs"
    by (auto simp: wavelet_to_realspace_def Let_def split: list.splits option.splits)
  from realspace_loop_checked[OF this] assms(2,3) l show ?thesis by simp
qed

text \<open>
  The views of an element with the coordinates 0 in a PDE of \<open>n\<close> dimensions of level 2
  and degree 8: the transformation matrix of a dimension is 32 by 32, and each view has
  its 32 rows and the columns 0 to 7.
\<close>

lemma level2_degree8_view:
  assumes "0 \<le> j" and "j < n" and "n \<le> 6"
  shows "element_view shape_ops (uniform_pde n t 2 8) (replicate (nat n) (32, 32)) get_1d_index
           (replicate (2 * nat n) 0) j = Some (32, 8)"
proof -
  have w: "wrap_int (j + n) = j + n" using assms by (simp add: wrap_int_id int_min_def int_max_def)
  have 1: "read_at (replicate (2 * nat n) 0) j = Some (0::int)"
    using assms by (simp add: read_at_replicate)
  have 2: "read_at (replicate (2 * nat n) 0) (j + n) = Some (0::int)"
    using assms by (simp add: read_at_replicate)
  have 3: "read_at (replicate (nat n) \<lparr>get_level = 2, get_degree = 8\<rparr>) j
             = Some \<lparr>get_level = 2, get_degree = 8\<rparr>"
    using assms by (simp add: read_at_replicate)
  have 4: "read_at (replicate (nat n) (32::int, 32::int)) j = Some (32, 32)"
    using assms by (simp add: read_at_replicate)
  have 5: "wrap_int 31 = 31" "wrap_int 0 = 0" "wrap_int 1 = 1" "wrap_int 8 = 8" "wrap_int 7 = 7"
    by (simp_all add: wrap_int_def)
  show ?thesis
    by (simp add: element_view_def uniform_pde_def w 1 2 3 4 5 get_1d_index_def shape_ops_simps)
qed

lemma upto_0_3: "[0..3] = [0, 1, 2, 3::int]"
  by (simp add: upto_rec1)

lemma upto_0_5: "[0..5] = [0, 1, 2, 3, 4, 5::int]"
  by (simp add: upto_rec1)

lemma four_views:
  "element_kron_matrices shape_ops (uniform_pde 4 4 2 8) (replicate 4 (32, 32)) get_1d_index
     [replicate 8 0] 0 = Some (replicate 4 (32, 8))"
proof -
  have v: "element_view shape_ops (uniform_pde 4 4 2 8) (replicate 4 (32, 32)) get_1d_index
             (replicate 8 0) j = Some (32, 8)" if "0 \<le> j" "j < 4" for j
    using level2_degree8_view[of j 4 4] that by simp
  have n: "num_dims (uniform_pde 4 4 2 8) = 4" by (simp add: uniform_pde_def)
  have r: "replicate 4 (32::int, 8::int) = [(32, 8), (32, 8), (32, 8), (32, 8)]"
    by (simp add: eval_nat_numeral)
  show ?thesis unfolding r
    by (simp add: element_kron_matrices_def read_at_def n upto_0_3 element_view_step_def v)
qed

lemma six_views:
  "element_kron_matrices shape_ops (uniform_pde 6 6 2 8) (replicate 6 (32, 32)) get_1d_index
     [replicate 12 0] 0 = Some (replicate 6 (32, 8))"
proof -
  have v: "element_view shape_ops (uniform_pde 6 6 2 8) (replicate 6 (32, 32)) get_1d_index
             (replicate 12 0) j = Some (32, 8)" if "0 \<le> j" "j < 6" for j
    using level2_degree8_view[of j 6 6] that by simp
  have n: "num_dims (uniform_pde 6 6 2 8) = 6" by (simp add: uniform_pde_def)
  have r: "replicate 6 (32::int, 8::int) = [(32, 8), (32, 8), (32, 8), (32, 8), (32, 8), (32, 8)]"
    by (simp add: eval_nat_numeral)
  show ?thesis unfolding r
    by (simp add: element_kron_matrices_def read_at_def n upto_0_5 element_view_step_def v)
qed

text \<open>The sizes: four views make a matrix of \<open>2^20\<close> by \<open>2^12\<close>, 34359 MB of
  \<open>double\<close>s; six views make one of \<open>2^30\<close> by \<open>2^18\<close>, \<open>2^51\<close> bytes, which is
  2251799813 MB and not an \<open>int\<close>.\<close>

lemma four_views_shape:
  "fold (\<lambda>m (r, c). (wrap_long (r * mat_nrows shape_ops m), wrap_long (c * mat_ncols shape_ops m)))
     (replicate 4 (32, 8)) (1, 1) = (1048576, 4096)"
  by (simp add: eval_nat_numeral shape_ops_simps wrap_long_def)

lemma six_views_shape:
  "fold (\<lambda>m (r, c). (wrap_long (r * mat_nrows shape_ops m), wrap_long (c * mat_ncols shape_ops m)))
     (replicate 6 (32, 8)) (1, 1) = (1073741824, 262144)"
  by (simp add: eval_nat_numeral shape_ops_simps wrap_long_def)

lemma four_views_bytes:
  "to_size_t (to_size_t (wrap_long (1048576 * 4096)) * sizeof Double) = 34359738368"
  by (simp add: wrap_long_def to_size_t_def)

lemma six_views_bytes:
  "to_size_t (to_size_t (wrap_long (1073741824 * 262144)) * sizeof Double) = 2251799813685248"
  by (simp add: wrap_long_def to_size_t_def)

lemma four_views_MB:
  "double_to_int (dmul (double_of_int 34359738368) one_millionth) = 34359"
  by (simp add: double_eval)

lemma six_views_product:
  "dmul (double_of_int 2251799813685248) one_millionth = Finite 4722366482869645 (- 21)"
  by (simp add: double_eval)

lemma six_views_MB:
  "double_to_int (Finite 4722366482869645 (- 21)) = - 2147483648"
  by (simp add: double_eval)

lemma four_views_kron_matrix_MB:
  "kron_matrix_MB shape_ops Double (replicate 4 (32, 8)) = 34359"
  unfolding kron_matrix_MB_def four_views_shape
  by (simp only: prod.case four_views_bytes four_views_MB)

lemma six_views_kron_matrix_MB:
  "kron_matrix_MB shape_ops Double (replicate 6 (32, 8)) = - 2147483648"
  unfolding kron_matrix_MB_def six_views_shape
  by (simp only: prod.case six_views_bytes six_views_product six_views_MB)

text \<open>The same for any matrices of these shapes.\<close>

lemma six_views_of_any_kind:
  assumes "map (\<lambda>m. (mat_nrows ops m, mat_ncols ops m)) ms = replicate 6 (32, 8)"
  shows "kron_matrix_MB ops Double ms = - 2147483648"
  using kron_matrix_MB_shapes[of ops Double ms] assms by (simp add: six_views_kron_matrix_MB)

lemma six_views_recursive_kron:
  "recursive_kron shape_ops (replicate 6 (32, 8)) 0 = Some (1073741824, 262144)"
proof -
  let ?ms = "replicate 6 (32::int, 8::int)"
  have 5: "recursive_kron shape_ops ?ms 5 = Some (32, 8)"
    by (subst recursive_kron.simps) simp
  have 4: "recursive_kron shape_ops ?ms 4 = Some (1024, 64)"
    by (subst recursive_kron.simps) (simp add: 5 shape_ops_simps)
  have 3: "recursive_kron shape_ops ?ms 3 = Some (32768, 512)"
    by (subst recursive_kron.simps) (simp add: 4 shape_ops_simps)
  have 2: "recursive_kron shape_ops ?ms 2 = Some (1048576, 4096)"
    by (subst recursive_kron.simps) (simp add: 3 shape_ops_simps)
  have 1: "recursive_kron shape_ops ?ms 1 = Some (33554432, 32768)"
    by (subst recursive_kron.simps) (simp add: 2 shape_ops_simps)
  show ?thesis
    by (subst recursive_kron.simps) (simp add: 1 shape_ops_simps)
qed

text \<open>The length of the real-space vector and the stride for six dimensions.\<close>

lemma level2_degree8_prod_steps:
  "double_to_int (dmul (double_of_int 1) (dmul (double_of_int 8) (dpow 2 2))) = 32"
  "double_to_int (dmul (double_of_int 32) (dmul (double_of_int 8) (dpow 2 2))) = 1024"
  "double_to_int (dmul (double_of_int 1024) (dmul (double_of_int 8) (dpow 2 2))) = 32768"
  "double_to_int (dmul (double_of_int 32768) (dmul (double_of_int 8) (dpow 2 2))) = 1048576"
  "double_to_int (dmul (double_of_int 1048576) (dmul (double_of_int 8) (dpow 2 2))) = 33554432"
  "double_to_int (dmul (double_of_int 33554432) (dmul (double_of_int 8) (dpow 2 2)))
     = 1073741824"
  by (simp_all add: double_eval)

lemma four_dims_prod:
  "fold (\<lambda>d prod. double_to_int
                     (dmul (double_of_int prod)
                        (dmul (double_of_int (get_degree d)) (dpow 2 (get_level d)))))
     (replicate 4 \<lparr>get_level = 2, get_degree = 8\<rparr>) 1 = 1048576"
  by (simp add: eval_nat_numeral level2_degree8_prod_steps)

lemma six_dims_prod:
  "fold (\<lambda>d prod. double_to_int
                     (dmul (double_of_int prod)
                        (dmul (double_of_int (get_degree d)) (dpow 2 (get_level d)))))
     (replicate 6 \<lparr>get_level = 2, get_degree = 8\<rparr>) 1 = 1073741824"
  by (simp add: eval_nat_numeral level2_degree8_prod_steps)

lemma level2_degree8_strides:
  "double_to_int (dpow 8 4) = 4096" "double_to_int (dpow 8 6) = 262144"
  by (simp_all add: double_eval)

text \<open>The step of the loop for the element, on shapes.\<close>

lemma four_views_step:
  "realspace_step shape_ops Double (uniform_pde 4 4 2 8) (replicate 4 (32, 32)) get_1d_index
     4096 [replicate 8 0] 4000 4096 0 (Some 1048576) = None"
  by (simp add: realspace_step_def four_views four_views_kron_matrix_MB)

lemma six_views_step:
  "realspace_step shape_ops Double (uniform_pde 6 6 2 8) (replicate 6 (32, 32)) get_1d_index
     262144 [replicate 12 0] 4000 262144 0 (Some 1073741824) = Some 1073741824"
  by (simp add: realspace_step_def six_views six_views_kron_matrix_MB six_views_recursive_kron
      wrap_int_def shape_ops_simps)

text \<open>Within the range of \<open>int\<close> the check does what its comment says: the product of
  four views needs 34359 MB, and the run stops at the assertion.\<close>

lemma memory_check_in_range:
  "kron_matrix_MB shape_ops Double (replicate 4 (32, 8)) = 34359
   \<and> wavelet_to_realspace shape_ops Double (uniform_pde 4 4 2 8) (replicate 4 (32, 32))
        get_1d_index 4096 [replicate 8 0] 4000 = None"
proof -
  have d: "get_dimensions (uniform_pde 4 4 2 8) = replicate 4 \<lparr>get_level = 2, get_degree = 8\<rparr>"
    by (simp add: uniform_pde_def)
  have z: "vec_zero shape_ops 1048576 = Some 1048576" by (simp add: shape_ops_simps)
  have r: "replicate 4 \<lparr>get_level = 2, get_degree = 8\<rparr>
             = \<lparr>get_level = 2, get_degree = 8\<rparr> # replicate 3 \<lparr>get_level = 2, get_degree = 8\<rparr>"
    by (simp add: eval_nat_numeral)
  have "wavelet_to_realspace shape_ops Double (uniform_pde 4 4 2 8) (replicate 4 (32, 32))
        get_1d_index 4096 [replicate 8 0] 4000 = None"
    unfolding wavelet_to_realspace_def d Let_def four_dims_prod z
    by (subst (2) r) (simp add: level2_degree8_strides table_size_def four_views_step)
  then show ?thesis by (simp add: four_views_kron_matrix_MB)
qed

section \<open>The distribution plan: claims C1 and C5\<close>

text \<open>
  Claim C1.  For every element table with \<open>N\<close> elements and every requested rank
  count \<open>0 < num_ranks < N\<close>, \<open>get_plan\<close> returns a plan whose subgrids tile
  the index square \<open>[0, N-1] \<times> [0, N-1]\<close>: every pair \<open>(row, col)\<close> of the square
  lies in the subgrid of exactly one rank, every subgrid lies inside the square, two
  entries that share a pair are the same entry, and with \<open>R\<close> row bands and \<open>C\<close>
  column bands (\<open>R * C\<close> the effective rank count) the subgrid of rank \<open>i\<close> has
  \<open>N div R\<close> rows, one more when its row band \<open>i div C\<close> is among the first
  \<open>N mod R\<close>, and \<open>N div C\<close> columns, one more when its column band \<open>i mod C\<close>
  is among the first \<open>N mod C\<close>.  The number of subgrid columns is whatever
  \<open>get_num_subgrid_cols\<close> returns for the effective rank count, assumed to be a
  positive divisor of it.
\<close>

theorem plan_tiles_element_square:
  fixes table :: element_table and gnsc :: "int \<Rightarrow> int" and num_ranks :: int
  defines "N \<equiv> table_size table"
  assumes ranks: "0 < num_ranks" "num_ranks < N"
  defines "E \<equiv> num_effective_ranks num_ranks"
  defines "C \<equiv> gnsc E"
  defines "R \<equiv> E div C"
  assumes cols: "0 < C" "C dvd E"
  shows "\<exists>plan. get_plan gnsc num_ranks table = Some plan
      \<and> map fst plan = [0..E - 1]
      \<and> (\<forall>row col. 0 \<le> row \<and> row < N \<and> 0 \<le> col \<and> col < N \<longrightarrow>
            (\<exists>!i. \<exists>g. (i, g) \<in> set plan \<and> in_subgrid g row col))
      \<and> (\<forall>i g row col. (i, g) \<in> set plan \<and> in_subgrid g row col \<longrightarrow>
            0 \<le> row \<and> row < N \<and> 0 \<le> col \<and> col < N)
      \<and> (\<forall>i g j h row col. (i, g) \<in> set plan \<and> (j, h) \<in> set plan
            \<and> in_subgrid g row col \<and> in_subgrid h row col \<longrightarrow> i = j \<and> g = h)
      \<and> (\<forall>i g. (i, g) \<in> set plan \<longrightarrow>
            nrows g = N div R + (if i div C < N mod R then 1 else 0)
          \<and> ncols g = N div C + (if i mod C < N mod C then 1 else 0))"
proof -
  define plan where "plan = map (\<lambda>i. (i, band_subgrid N R C i)) [0..E - 1]"
  have gp: "get_plan gnsc num_ranks table = Some plan"
    using get_plan_bands[of num_ranks table gnsc] ranks cols
    by (simp add: plan_def N_def E_def C_def R_def)
  have mem: "\<And>i g. (i, g) \<in> set plan \<longleftrightarrow> 0 \<le> i \<and> i < E \<and> g = band_subgrid N R C i"
    by (auto simp: plan_def)
  have N: "0 \<le> N" by (simp add: N_def table_size_nonneg)
  have RC: "R * C = E" using cols(2) by (simp add: R_def)
  have E: "0 < E" using effective_ranks_shape[OF ranks(1)] by (simp add: E_def Let_def)
  have R: "0 < R"
  proof -
    have "0 < R * C" using RC E by simp
    then show ?thesis using cols(1) by (simp add: zero_less_mult_iff)
  qed
  have keys: "map fst plan = [0..E - 1]"
    by (simp add: plan_def comp_def)
  have cover: "\<exists>!i. \<exists>g. (i, g) \<in> set plan \<and> in_subgrid g row col"
    if "0 \<le> row \<and> row < N \<and> 0 \<le> col \<and> col < N" for row col
  proof -
    from that band_subgrid_cover[OF N R cols(1), of row col]
    have "\<exists>!i. 0 \<le> i \<and> i < E \<and> in_subgrid (band_subgrid N R C i) row col"
      by (simp add: RC)
    then show ?thesis by (simp add: mem)
  qed
  have inside: "0 \<le> row \<and> row < N \<and> 0 \<le> col \<and> col < N"
    if "(i, g) \<in> set plan \<and> in_subgrid g row col" for i g row col
    using that band_subgrid_inside[OF N R cols(1), of i row col] by (auto simp: mem RC)
  have disjoint: "i = j \<and> g = h"
    if "(i, g) \<in> set plan \<and> (j, h) \<in> set plan \<and> in_subgrid g row col \<and> in_subgrid h row col"
    for i g j h row col
  proof -
    from that inside have "0 \<le> row \<and> row < N \<and> 0 \<le> col \<and> col < N" by blast
    from cover[OF this] that have "i = j" by blast
    with that show ?thesis by (simp add: mem)
  qed
  have sizes: "nrows g = N div R + (if i div C < N mod R then 1 else 0)
          \<and> ncols g = N div C + (if i mod C < N mod C then 1 else 0)"
    if "(i, g) \<in> set plan" for i g
    using that by (simp add: mem band_subgrid_sizes)
  show ?thesis
    using gp keys cover inside disjoint sizes by blast
qed

text \<open>Four ranks on 64 elements: a plan of four subgrids, the pair \<open>(40, 7)\<close> in
  exactly one of them.\<close>

theorem plan_tiles_element_square_witness:
  "\<exists>plan. get_plan get_num_subgrid_cols 4 (replicate 64 []) = Some plan
      \<and> map fst plan = [0, 1, 2, 3]
      \<and> (\<exists>!i. \<exists>g. (i, g) \<in> set plan \<and> in_subgrid g 40 7)"
proof -
  have u: "[0..3] = [0, 1, 2, 3::int]" by (simp add: upto_rec1)
  have h1: "(0::int) < 4" by simp
  have h2: "4 < table_size (replicate 64 [])" by (simp add: table_size_def)
  have h3: "0 < get_num_subgrid_cols (num_effective_ranks 4)"
    by (simp add: num_effective_ranks_4 get_num_subgrid_cols_4)
  have h4: "get_num_subgrid_cols (num_effective_ranks 4) dvd num_effective_ranks 4"
    by (simp add: num_effective_ranks_4 get_num_subgrid_cols_4)
  from plan_tiles_element_square[where num_ranks = 4 and table = "replicate 64 []"
      and gnsc = get_num_subgrid_cols, OF h1 h2 h3 h4]
  obtain plan where p: "get_plan get_num_subgrid_cols 4 (replicate 64 []) = Some plan"
    "map fst plan = [0..num_effective_ranks 4 - 1]"
    "\<forall>row col. 0 \<le> row \<and> row < table_size (replicate 64 []) \<and> 0 \<le> col
         \<and> col < table_size (replicate 64 []) \<longrightarrow>
            (\<exists>!i. \<exists>g. (i, g) \<in> set plan \<and> in_subgrid g row col)"
    by blast
  from p(3) h2 have c: "\<exists>!i. \<exists>g. (i, g) \<in> set plan \<and> in_subgrid g 40 7"
    by (simp add: table_size_def)
  from p(2) have k: "map fst plan = [0, 1, 2, 3]" by (simp add: num_effective_ranks_4 u)
  show ?thesis by (rule exI[of _ plan]) (use p(1) k c in simp)
qed

text \<open>
  Claim C5.  For every \<open>num_ranks > 0\<close> the effective rank count is \<open>num_ranks\<close>
  when \<open>num_ranks\<close> is even or a perfect square and \<open>num_ranks - 1\<close> otherwise,
  and the plan \<open>get_plan\<close> returns (for a table with more than \<open>num_ranks\<close>
  elements) has exactly the rank ids \<open>0, \<dots>, effective_ranks - 1\<close>, in this order.
\<close>

theorem effective_ranks_and_plan_ids:
  fixes table :: element_table and gnsc :: "int \<Rightarrow> int" and num_ranks :: int
  defines "E \<equiv> num_effective_ranks num_ranks"
  assumes ranks: "0 < num_ranks"
  shows "E = (if even num_ranks \<or> (\<exists>k. k * k = num_ranks) then num_ranks else num_ranks - 1)
     \<and> (num_ranks < table_size table \<and> 0 < gnsc E \<and> gnsc E dvd E \<longrightarrow>
          (\<exists>plan. get_plan gnsc num_ranks table = Some plan
                 \<and> map fst plan = [0..E - 1] \<and> int (length plan) = E))"
proof -
  have sq: "is_perfect_square num_ranks \<longleftrightarrow> (\<exists>k. k * k = num_ranks)"
  proof
    assume "is_perfect_square num_ranks"
    then show "\<exists>k. k * k = num_ranks" by (auto simp: is_perfect_square_iff)
  next
    assume "\<exists>k. k * k = num_ranks"
    then obtain k where "k * k = num_ranks" by blast
    then have "0 \<le> \<bar>k\<bar> \<and> \<bar>k\<bar> * \<bar>k\<bar> = num_ranks" by (simp add: abs_mult_self_eq)
    then show "is_perfect_square num_ranks"
      unfolding is_perfect_square_iff by blast
  qed
  have 1: "E = (if even num_ranks \<or> (\<exists>k. k * k = num_ranks) then num_ranks else num_ranks - 1)"
    by (simp add: E_def num_effective_ranks_cases sq)
  have E: "0 < E" using effective_ranks_shape[OF ranks] by (simp add: E_def Let_def)
  have 2: "\<exists>plan. get_plan gnsc num_ranks table = Some plan
                 \<and> map fst plan = [0..E - 1] \<and> int (length plan) = E"
    if "num_ranks < table_size table \<and> 0 < gnsc E \<and> gnsc E dvd E"
    using get_plan_bands[of num_ranks table gnsc] that ranks E
    by (simp add: E_def comp_def)
  from 1 2 show ?thesis by blast
qed

text \<open>Three ranks: two are used, the plan has the entries of ranks 0 and 1.\<close>

theorem effective_ranks_and_plan_ids_witness:
  "num_effective_ranks 3 = 2
   \<and> (\<exists>plan. get_plan get_num_subgrid_cols 3 (replicate 10 []) = Some plan
             \<and> map fst plan = [0, 1] \<and> length plan = 2)"
proof -
  have u: "[0..1] = [0, 1::int]" by (simp add: upto_rec1)
  have h: "3 < table_size (replicate 10 []) \<and> 0 < get_num_subgrid_cols (num_effective_ranks 3)
     \<and> get_num_subgrid_cols (num_effective_ranks 3) dvd num_effective_ranks 3"
    by (simp add: num_effective_ranks_3 get_num_subgrid_cols_2 table_size_def)
  have pos: "(0::int) < 3" by simp
  from effective_ranks_and_plan_ids[where num_ranks = 3 and table = "replicate 10 []"
      and gnsc = get_num_subgrid_cols, OF pos, THEN conjunct2, THEN mp, OF h]
  have "\<exists>plan. get_plan get_num_subgrid_cols 3 (replicate 10 []) = Some plan
                 \<and> map fst plan = [0..num_effective_ranks 3 - 1]
                 \<and> int (length plan) = num_effective_ranks 3"
    .
  then show ?thesis by (simp add: num_effective_ranks_3 u)
qed

section \<open>Column dependencies: claim C6\<close>

text \<open>
  Claim C6.  Given inclusive stop-index lists that delimit consecutive (non-empty) row
  bands and column bands, \<open>find_column_dependencies\<close> returns one map per column
  band; the map of column band \<open>c\<close> has the key \<open>r\<close> exactly when \<open>r\<close> is a row band
  whose index interval meets the interval of \<open>c\<close>, and it maps \<open>r\<close> to the limits
  \<open>[max row_start col_start, min row_end column_end]\<close>, which are exactly the indices the
  two bands share.  The keys of each map are in increasing order.
\<close>

theorem find_column_dependencies_overlap:
  assumes "bands_nonempty row_boundaries" "bands_nonempty column_boundaries"
  shows "length (find_column_dependencies row_boundaries column_boundaries)
           = length column_boundaries
     \<and> (\<forall>c r. 0 \<le> c \<and> c < int (length column_boundaries) \<longrightarrow>
          map_of (find_column_dependencies row_boundaries column_boundaries ! nat c) r =
            (if 0 \<le> r \<and> r < int (length row_boundaries)
                \<and> band_members row_boundaries r \<inter> band_members column_boundaries c \<noteq> {}
             then Some \<lparr>start = max (band_first row_boundaries r) (band_first column_boundaries c),
                        stop = min (row_boundaries ! nat r) (column_boundaries ! nat c)\<rparr>
             else None)
          \<and> (\<forall>limits.
                map_of (find_column_dependencies row_boundaries column_boundaries ! nat c) r
                  = Some limits \<longrightarrow>
                {start limits .. stop limits}
                  = band_members row_boundaries r \<inter> band_members column_boundaries c)
          \<and> sorted_wrt (<)
                (map fst (find_column_dependencies row_boundaries column_boundaries ! nat c)))"
proof -
  let ?rb = row_boundaries and ?cb = column_boundaries
  have len: "length (find_column_dependencies ?rb ?cb) = length ?cb"
    by (simp add: find_column_dependencies_eq)
  have nth: "find_column_dependencies ?rb ?cb ! nat c = column_dependency ?rb ?cb c"
    if "0 \<le> c \<and> c < int (length ?cb)" for c
    using that by (simp add: find_column_dependencies_eq nth_map_upto0)
  have m: "map_of (column_dependency ?rb ?cb c) r =
            (if 0 \<le> r \<and> r < int (length ?rb)
                \<and> band_members ?rb r \<inter> band_members ?cb c \<noteq> {}
             then Some \<lparr>start = max (band_first ?rb r) (band_first ?cb c),
                        stop = min (?rb ! nat r) (?cb ! nat c)\<rparr>
             else None)"
    if c: "0 \<le> c \<and> c < int (length ?cb)" for c r
  proof (cases "0 \<le> r \<and> r < int (length ?rb)")
    case True
    then have "overlap_test ?rb ?cb c r \<longleftrightarrow> band_members ?rb r \<inter> band_members ?cb c \<noteq> {}"
      using c assms by (intro overlap_test_iff bands_nonempty_nth) simp_all
    then show ?thesis using True
      by (simp add: map_of_column_dependency overlap_limits_def)
  next
    case False
    then show ?thesis by (auto simp: map_of_column_dependency)
  qed
  have l: "{start limits .. stop limits} = band_members ?rb r \<inter> band_members ?cb c"
    if "map_of (column_dependency ?rb ?cb c) r = Some limits" for c r limits
  proof -
    from that have "limits = overlap_limits ?rb ?cb c r"
      by (simp add: map_of_column_dependency split: if_splits)
    then show ?thesis by (simp add: overlap_limits_members)
  qed
  show ?thesis
    using len m l by (simp add: nth column_dependency_keys_sorted)
qed

text \<open>Row bands \<open>[0,2] [3,5] [6,9]\<close> against column bands \<open>[0,4] [5,9]\<close>: the first
  column band needs \<open>[3,4]\<close> of row band 1 and nothing of row band 2.\<close>

theorem find_column_dependencies_overlap_witness:
  "bands_nonempty [2, 5, 9] \<and> bands_nonempty [4, 9]
   \<and> length (find_column_dependencies [2, 5, 9] [4, 9]) = 2
   \<and> map_of (find_column_dependencies [2, 5, 9] [4, 9] ! 0) 1 = Some \<lparr>start = 3, stop = 4\<rparr>
   \<and> map_of (find_column_dependencies [2, 5, 9] [4, 9] ! 0) 2 = None"
proof -
  have h1: "bands_nonempty [2, 5, 9]" and h2: "bands_nonempty [4, 9]"
    by (simp_all add: bands_nonempty_def)
  note t = find_column_dependencies_overlap[OF h1 h2]
  have i1: "band_members [2, 5, 9] 1 \<inter> band_members [4, 9] 0 \<noteq> {}"
  proof -
    have "3 \<in> band_members [2, 5, 9] 1 \<inter> band_members [4, 9] 0"
      by (simp add: band_members_def band_first_def)
    then show ?thesis by blast
  qed
  have i2: "band_members [2, 5, 9] 2 \<inter> band_members [4, 9] 0 = {}"
    by (auto simp: band_members_def band_first_def)
  have z: "(0::int) \<le> 0 \<and> 0 < int (length [4, 9::int])" by simp
  from t[THEN conjunct2, rule_format, OF z, of 1, THEN conjunct1] i1
  have a: "map_of (find_column_dependencies [2, 5, 9] [4, 9] ! 0) 1 = Some \<lparr>start = 3, stop = 4\<rparr>"
    by (simp add: band_first_def)
  from t[THEN conjunct2, rule_format, OF z, of 2, THEN conjunct1] i2
  have b: "map_of (find_column_dependencies [2, 5, 9] [4, 9] ! 0) 2 = None"
    by simp
  from t have c: "length (find_column_dependencies [2, 5, 9] [4, 9]) = 2" by simp
  from h1 h2 a b c show ?thesis by simp
qed

section \<open>The message lists: claims C7, C2 and C3\<close>

text \<open>
  Claim C7.  \<open>dependencies_to_messages\<close>, given one dependency map per column band
  whose rows are rows of the grid, returns the lists that its assignments produce, one
  assignment per pass \<open>(c, row, limits, r)\<close> of the innermost loop, in loop order.  The
  receiver of the pass is rank \<open>r * C + c\<close>.  When the receiving row \<open>r\<close> is the
  dependency row, the sender is the receiver itself.  Otherwise the sender is
  \<open>row * C + w\<close> with \<open>0 \<le> w < C\<close>, a rank of the dependency's row band, where \<open>w\<close>
  is the number of earlier passes that took a sender from this row, modulo \<open>C\<close>: the
  counter of the row starts at 0, goes up by one for each receiving rank it serves and
  wraps at the number of subgrid columns.
\<close>

theorem round_robin_senders:
  fixes col_dependencies :: "rows_to_range list" and row_boundaries column_boundaries :: "int list"
  defines "R \<equiv> int (length row_boundaries)" and "C \<equiv> int (length column_boundaries)"
  defines "work \<equiv> work_items col_dependencies R"
  assumes len: "length col_dependencies = length column_boundaries"
    and rows: "\<forall>c<length col_dependencies. \<forall>e\<in>set (col_dependencies ! c). 0 \<le> fst e \<and> fst e < R"
  shows "\<exists>as. dependencies_to_messages col_dependencies row_boundaries column_boundaries
             = Some (map (\<lambda>p. rank_messages (int p) as)
                       [0..<length row_boundaries * length column_boundaries])
     \<and> length as = length work
     \<and> (\<forall>k<length work.
          case work ! k of (c, row, limits, r) \<Rightarrow>
            (row = r \<longrightarrow> as ! k = (r * C + c, r * C + c, limits))
          \<and> (row \<noteq> r \<longrightarrow>
               as ! k = (row * C + int (spins_before row (take k work)) mod C, r * C + c, limits)
             \<and> 0 \<le> int (spins_before row (take k work)) mod C
             \<and> int (spins_before row (take k work)) mod C < C))"
proof -
  let ?as = "assignments col_dependencies row_boundaries column_boundaries"
  have d: "dependencies_to_messages col_dependencies row_boundaries column_boundaries
             = Some (map (\<lambda>p. rank_messages (int p) ?as)
                       [0..<length row_boundaries * length column_boundaries])"
    using dependencies_to_messages_eq[OF len] rows by (simp add: R_def)
  have l: "length ?as = length work"
    by (simp add: assignments_def assign_senders_length work_def R_def)
  have items: "\<forall>it\<in>set work. item_ok R C it"
    unfolding work_def using work_items_ok[OF rows] len by (simp add: C_def)
  have k: "(row = r \<longrightarrow> ?as ! k = (r * C + c, r * C + c, limits))
          \<and> (row \<noteq> r \<longrightarrow>
               ?as ! k = (row * C + int (spins_before row (take k work)) mod C, r * C + c, limits)
             \<and> 0 \<le> int (spins_before row (take k work)) mod C
             \<and> int (spins_before row (take k work)) mod C < C)"
    if "k < length work" "work ! k = (c, row, limits, r)" for k c row limits r
  proof -
    from that items have "item_ok R C (c, row, limits, r)" by (metis nth_mem)
    then have C: "0 < C" and row: "0 \<le> row" "row < R" by (auto simp: item_ok_def)
    have w: "wheels_ok C (wheels_start (length row_boundaries) C)"
      using C by (simp add: wheels_ok_def wheels_start_def)
    have lw: "int (length (wheels_start (length row_boundaries) C)) = R"
      by (simp add: wheels_start_def R_def)
    have z: "current_index (wheels_start (length row_boundaries) C ! nat row) = 0"
      using row by (simp add: wheels_start_def R_def)
    have a: "?as = assign_senders C (wheels_start (length row_boundaries) C) work"
      by (simp add: assignments_def work_def R_def C_def)
    from assign_senders_nth[OF w lw items that]
    have "?as ! k = ((if row = r then r * C + c
       else row * C + int (spins_before row (take k work)) mod C), r * C + c, limits)"
      unfolding a z by simp
    then show ?thesis using C by simp
  qed
  have "\<forall>k<length work.
          case work ! k of (c, row, limits, r) \<Rightarrow>
            (row = r \<longrightarrow> ?as ! k = (r * C + c, r * C + c, limits))
          \<and> (row \<noteq> r \<longrightarrow>
               ?as ! k = (row * C + int (spins_before row (take k work)) mod C, r * C + c, limits)
             \<and> 0 \<le> int (spins_before row (take k work)) mod C
             \<and> int (spins_before row (take k work)) mod C < C)"
  proof (intro allI impI)
    fix k assume kk: "k < length work"
    obtain c row limits r where e: "work ! k = (c, row, limits, r)" by (cases "work ! k") auto
    from k[OF kk e] show "case work ! k of (c, row, limits, r) \<Rightarrow>
            (row = r \<longrightarrow> ?as ! k = (r * C + c, r * C + c, limits))
          \<and> (row \<noteq> r \<longrightarrow>
               ?as ! k = (row * C + int (spins_before row (take k work)) mod C, r * C + c, limits)
             \<and> 0 \<le> int (spins_before row (take k work)) mod C
             \<and> int (spins_before row (take k work)) mod C < C)"
      by (simp add: e)
  qed
  with d l show ?thesis by blast
qed

text \<open>A two by two grid with bands \<open>[0,4]\<close> and \<open>[5,9]\<close>: the first pass is the local
  copy of rank 0, the second sends from rank 0 to rank 2, the third from rank 2 to
  rank 1.\<close>

theorem round_robin_senders_witness:
  "\<exists>as. dependencies_to_messages
            [[(0, \<lparr>start = 0, stop = 4\<rparr>)], [(1, \<lparr>start = 5, stop = 9\<rparr>)]] [4, 9] [4, 9]
          = Some (map (\<lambda>p. rank_messages (int p) as) [0..<4])
     \<and> length as = 4
     \<and> as ! 0 = (0, 0, \<lparr>start = 0, stop = 4\<rparr>)
     \<and> as ! 1 = (0, 2, \<lparr>start = 0, stop = 4\<rparr>)
     \<and> as ! 2 = (2, 1, \<lparr>start = 5, stop = 9\<rparr>)"
proof -
  let ?cd = "[[(0, \<lparr>start = 0, stop = 4\<rparr>)], [(1::int, \<lparr>start = 5, stop = 9\<rparr>)]]"
  let ?l0 = "\<lparr>start = 0, stop = 4\<rparr>" and ?l1 = "\<lparr>start = 5, stop = 9\<rparr>"
  have h1: "length ?cd = length [4, 9::int]" by simp
  have h2: "\<forall>c<length ?cd. \<forall>e\<in>set (?cd ! c). 0 \<le> fst e \<and> fst e < int (length [4, 9::int])"
    by (auto simp: less_Suc_eq numeral_2_eq_2)
  have u: "[0..1] = [0, 1::int]" by (simp add: upto_rec1)
  have w: "work_items ?cd (int (length [4, 9::int]))
      = [(0, 0, ?l0, 0), (0, 0, ?l0, 1), (1, 1, ?l1, 0), (1, 1, ?l1, 1)]"
    by (simp add: work_items_def u)
  from round_robin_senders[OF h1 h2] obtain as where
    a: "dependencies_to_messages ?cd [4, 9] [4, 9]
          = Some (map (\<lambda>p. rank_messages (int p) as) [0..<length [4, 9::int] * length [4, 9::int]])"
      "length as = length (work_items ?cd (int (length [4, 9::int])))"
    and k: "\<forall>k<length (work_items ?cd (int (length [4, 9::int]))).
          case work_items ?cd (int (length [4, 9::int])) ! k of (c, row, limits, r) \<Rightarrow>
            (row = r \<longrightarrow> as ! k = (r * int (length [4, 9::int]) + c,
                                     r * int (length [4, 9::int]) + c, limits))
          \<and> (row \<noteq> r \<longrightarrow>
               as ! k = (row * int (length [4, 9::int])
                          + int (spins_before row
                                  (take k (work_items ?cd (int (length [4, 9::int])))))
                            mod int (length [4, 9::int]),
                         r * int (length [4, 9::int]) + c, limits)
             \<and> 0 \<le> int (spins_before row
                                  (take k (work_items ?cd (int (length [4, 9::int])))))
                            mod int (length [4, 9::int])
             \<and> int (spins_before row
                                  (take k (work_items ?cd (int (length [4, 9::int])))))
                            mod int (length [4, 9::int]) < int (length [4, 9::int]))"
    by blast
  from k[unfolded w, rule_format, of 0] have k0: "as ! 0 = (0, 0, ?l0)" by simp
  from k[unfolded w, rule_format, of 1] have k1: "as ! 1 = (0, 2, ?l0)"
    by (simp add: spins_before_def)
  from k[unfolded w, rule_format, of 2] have k2: "as ! 2 = (2, 1, ?l1)"
    by (simp add: spins_before_def)
  have n4: "length [4, 9::int] * length [4, 9::int] = 4" by simp
  note a1 = a(1)[unfolded n4]
  from a(2)[unfolded w] have a2: "length as = 4" by simp
  from a1 a2 k0 k1 k2 show ?thesis by blast
qed



text \<open>
  Claim C3.  For the plan of \<open>get_plan\<close> and the lists of \<open>generate_messages\<close>, every
  configuration the replay can reach is either finished (every list consumed) or can
  take a step: some rank has a local copy next, or some rank has a send next whose
  target has the matching receive, with the same range, next.  From every reachable
  configuration the replay can be completed, and every step consumes messages, so no
  replay runs forever and none stops before every list is consumed.
\<close>

theorem replay_deadlock_free:
  fixes table :: element_table and gnsc :: "int \<Rightarrow> int" and num_ranks :: int
  defines "E \<equiv> num_effective_ranks num_ranks"
  assumes ranks: "0 < num_ranks" "num_ranks < table_size table"
    and cols: "0 < gnsc E" "gnsc E dvd E"
  shows "\<exists>plan msgs. get_plan gnsc num_ranks table = Some plan
      \<and> generate_messages gnsc plan = Some msgs
      \<and> (\<forall>cfg. replay_step\<^sup>*\<^sup>* msgs cfg \<longrightarrow>
            (all_consumed cfg \<or> local_ready cfg \<or> transfer_ready cfg)
          \<and> (all_consumed cfg \<or> (\<exists>cfg'. replay_step cfg cfg'))
          \<and> (\<exists>final. replay_step\<^sup>*\<^sup>* cfg final \<and> all_consumed final))
      \<and> (\<forall>cfg cfg'. replay_step cfg cfg' \<longrightarrow> remaining cfg' < remaining cfg)"
proof -
  from plan_schedule[where gnsc = gnsc, OF ranks cols[unfolded E_def]]
  obtain plan as where p: "get_plan gnsc num_ranks table = Some plan"
    "generate_messages gnsc plan = Some (schedule (nat E) as)" "assignments_ok E as"
    unfolding E_def by blast
  have E: "0 < E" using effective_ranks_shape[OF ranks(1)] by (simp add: E_def Let_def)
  then have n: "int (nat E) = E" by simp
  define pend where "pend = concat (map pending_of as)"
  have v: "schedule (nat E) as = view (nat E) pend"
    by (simp add: schedule_view pend_def)
  have ok: "\<forall>x\<in>set pend. pending_ok (int (nat E)) x"
    unfolding pend_def n using p(3) pending_of_ok[of _ E]
    by (auto simp: assignments_ok_def)
  have reach: "(all_consumed cfg \<or> local_ready cfg \<or> transfer_ready cfg)
          \<and> (all_consumed cfg \<or> (\<exists>cfg'. replay_step cfg cfg'))
          \<and> (\<exists>final. replay_step\<^sup>*\<^sup>* cfg final \<and> all_consumed final)"
    if "replay_step\<^sup>*\<^sup>* (schedule (nat E) as) cfg" for cfg
  proof -
    from view_reachable[OF that v ok] obtain pend' where
      c: "cfg = view (nat E) pend'" "\<forall>x\<in>set pend'. pending_ok (int (nat E)) x" by blast
    have 1: "all_consumed cfg \<or> local_ready cfg \<or> transfer_ready cfg"
    proof (cases "pend' = []")
      case True
      then show ?thesis using c(1) view_Nil_consumed by simp
    next
      case False
      from view_progress[OF c(2) False] show ?thesis using c(1) by blast
    qed
    then have 2: "all_consumed cfg \<or> (\<exists>cfg'. replay_step cfg cfg')"
      using ready_step by blast
    from view_completes[OF c(2)] c(1)
    have 3: "\<exists>final. replay_step\<^sup>*\<^sup>* cfg final \<and> all_consumed final" by simp
    from 1 2 3 show ?thesis by blast
  qed
  from p(1,2) reach replay_step_remaining show ?thesis by blast
qed

text \<open>Four ranks on ten elements: the replay of the generated lists reaches a
  configuration with every list consumed.\<close>

theorem replay_deadlock_free_witness:
  "\<exists>plan msgs. get_plan get_num_subgrid_cols 4 (replicate 10 []) = Some plan
      \<and> generate_messages get_num_subgrid_cols plan = Some msgs
      \<and> (\<exists>final. replay_step\<^sup>*\<^sup>* msgs final \<and> all_consumed final)"
proof -
  have h1: "(0::int) < 4" by simp
  have h2: "4 < table_size (replicate 10 [])" by (simp add: table_size_def)
  have h3: "0 < get_num_subgrid_cols (num_effective_ranks 4)"
    by (simp add: num_effective_ranks_4 get_num_subgrid_cols_4)
  have h4: "get_num_subgrid_cols (num_effective_ranks 4) dvd num_effective_ranks 4"
    by (simp add: num_effective_ranks_4 get_num_subgrid_cols_4)
  from replay_deadlock_free[where num_ranks = 4 and table = "replicate 10 []"
      and gnsc = get_num_subgrid_cols, OF h1 h2 h3 h4]
  obtain plan msgs where p: "get_plan get_num_subgrid_cols 4 (replicate 10 []) = Some plan"
    "generate_messages get_num_subgrid_cols plan = Some msgs"
    "\<forall>cfg. replay_step\<^sup>*\<^sup>* msgs cfg \<longrightarrow>
            (all_consumed cfg \<or> local_ready cfg \<or> transfer_ready cfg)
          \<and> (all_consumed cfg \<or> (\<exists>cfg'. replay_step cfg cfg'))
          \<and> (\<exists>final. replay_step\<^sup>*\<^sup>* cfg final \<and> all_consumed final)"
    by blast
  have "replay_step\<^sup>*\<^sup>* msgs msgs" by simp
  with p(3) have "\<exists>final. replay_step\<^sup>*\<^sup>* msgs final \<and> all_consumed final" by blast
  with p(1,2) show ?thesis by blast
qed

section \<open>Tasks: claims C4, C8 and C10\<close>

text \<open>
  Claim C4.  The tasks of \<open>assign_elements_to_tasks\<close> are runs of
  \<open>N * N div num_tasks\<close> consecutive linear indices each (\<open>tasks_cover_prefix\<close> above:
  together they cover exactly the indices below \<open>num_tasks * (N * N div num_tasks)\<close>).
  When \<open>num_tasks\<close> does not divide \<open>N * N\<close> the last \<open>N * N mod num_tasks\<close> element
  pairs are in no task: with three elements and two tasks the tasks cover the indices
  0 to 7, and the pair \<open>(2, 2)\<close>, index 8, is left out.
\<close>

theorem tasks_drop_remainder:
  "assign_elements_to_tasks (replicate 3 []) 2
     = Some [\<lparr>elem_start = 0, elem_end = 1, conn_start = 0, conn_end = 0\<rparr>,
             \<lparr>elem_start = 1, elem_end = 2, conn_start = 1, conn_end = 1\<rparr>]
   \<and> \<not> task_covers 3 \<lparr>elem_start = 0, elem_end = 1, conn_start = 0, conn_end = 0\<rparr> 8
   \<and> \<not> task_covers 3 \<lparr>elem_start = 1, elem_end = 2, conn_start = 1, conn_end = 1\<rparr> 8"
proof -
  have u: "[0..1] = [0, 1::int]" by (simp add: upto_rec1)
  show ?thesis
    by (simp add: assign_elements_to_tasks_def table_size_def Let_def u
        signed_divide_int_def signed_modulo_int_def task_covers_def)
qed

text \<open>
  Claim C8.  \<open>get_num_tasks\<close> rounds the problem size up to a whole megabyte and
  then divides by the ceiling with the truncating integer division; the quotient is
  not rounded up.  For 170 elements of 160 bytes per element pair (4.624 MB) and a
  ceiling of 2 MB on one rank it returns 2 tasks, of 2.312 MB each, where rounding
  the quotient up gives 3.
\<close>

theorem truncated_task_count:
  "get_num_tasks Double (replicate 170 []) example_pde 1 2 = Some 2
   \<and> claimed_num_tasks ((160 / 1000000) * (170 * 170)) 1 2 = 3"
proof -
  have g: "get_num_tasks Double (replicate 170 []) example_pde 1 2 = Some 2"
    by (simp add: get_num_tasks_def table_size_def example_pde_size example_problem_size
        example_problem_ceil signed_divide_int_def signed_modulo_int_def)
  have c2: "\<lceil>(160 / 1000000 :: real) * (170 * 170) / real_of_int 2\<rceil> = 3"
    by (simp add: ceiling_eq_iff)
  have "claimed_num_tasks ((160 / 1000000) * (170 * 170)) 1 2 = 3"
    using c2 by (simp add: claimed_num_tasks_def Let_def)
  with g show ?thesis by simp
qed

text \<open>
  Claim C10.  Let the assertions of \<open>get_element_size_MB\<close> hold, and let the
  \<open>double\<close> that \<open>get_num_tasks\<close> computes as the problem size be the number
  \<open>m * 2^e\<close>.  Whenever this number, rounded up to a whole megabyte, is below
  \<open>rank_size_MB\<close>, an \<open>int\<close>, \<open>get_num_tasks\<close> returns 0 for every positive rank
  count, and \<open>assign_elements_to_tasks\<close> called with this 0 fails its assertion
  \<open>num_tasks > 0\<close>.
\<close>

theorem small_problem_has_no_tasks:
  assumes "get_element_size_MB P pde = Some space_per_elem"
    and "dmul space_per_elem
           (dmul (double_of_int (table_size table)) (double_of_int (table_size table)))
         = Finite m e"
    and "\<lceil>dyadic m e\<rceil> < rank_size_MB" and "rank_size_MB \<le> int_max"
    and "0 < num_ranks"
  shows "get_num_tasks P table pde num_ranks rank_size_MB = Some 0
     \<and> assign_elements_to_tasks table 0 = None"
proof -
  let ?n = "double_of_int (table_size table)"
  have "dnonneg ?n" by (simp add: double_of_int_nonneg table_size_def)
  then have n: "dnonneg (dmul ?n ?n)"
    by (cases ?n) (simp_all add: dnonneg_simps dmul_Finite round_double_nonneg dmul_def
        dsign_def infinity_of_def)
  have "dnonneg space_per_elem" using assms(1) by (rule get_element_size_MB_nonneg)
  from dmul_nonneg[OF this n assms(2)] have m: "0 \<le> m" .
  have "\<lceil>dyadic m e\<rceil> \<le> int_max" using assms(3,4) by simp
  from dceil_to_int[OF m this]
  have c: "double_to_int (dceil (Finite m e)) = \<lceil>dyadic m e\<rceil>" .
  have "0 \<le> dyadic m e" using m by (simp add: dyadic_def)
  then have c0: "0 \<le> \<lceil>dyadic m e\<rceil>" by linarith
  with assms(3) have r: "0 < rank_size_MB" by linarith
  have "\<lceil>dyadic m e\<rceil> sdiv rank_size_MB = \<lceil>dyadic m e\<rceil> div rank_size_MB"
    using c0 r by (simp add: sdiv_nonneg)
  also have "\<dots> = 0" using c0 assms(3) by simp
  finally have z: "\<lceil>dyadic m e\<rceil> sdiv rank_size_MB = 0" .
  have "get_num_tasks P table pde num_ranks rank_size_MB = Some 0"
    using assms(1,5) r by (simp add: get_num_tasks_def Let_def assms(2) c z)
  moreover have "assign_elements_to_tasks table 0 = None"
    by (simp add: assign_elements_to_tasks_def)
  ultimately show ?thesis by simp
qed

text \<open>750 elements of 80 bytes per pair on two ranks: the estimate is just above
  45 MB, 46 MB when rounded up, against a ceiling of 47 MB.\<close>

theorem small_problem_has_no_tasks_witness:
  "get_num_tasks Double (replicate 750 []) (uniform_pde 3 3 2 1) 2 47 = Some 0
     \<and> assign_elements_to_tasks (replicate 750 []) 0 = None"
proof -
  have s: "dmul (Finite 5902958103587057 (- 66))
       (dmul (double_of_int (table_size (replicate 750 [])))
          (double_of_int (table_size (replicate 750 []))))
     = Finite 6333186975989761 (- 47)"
    by (simp add: table_size_def uniform_problem_size)
  have h: "\<lceil>dyadic 6333186975989761 (- 47)\<rceil> < (47::int)"
    by (simp add: dyadic_def ceiling_less_iff)
  have i: "(47::int) \<le> int_max" by (simp add: int_max_def)
  have p: "(0::int) < 2" by simp
  from small_problem_has_no_tasks[OF uniform_pde_size s h i p] show ?thesis .
qed
section \<open>Wavelet to real space: claim C9\<close>

text \<open>
  Claim C9.  \<open>wavelet_to_realspace\<close> asserts that \<open>kron_matrix_MB\<close> of the views of
  an element is at most \<open>memory_limit_MB\<close> before it calls \<open>recursive_kron\<close>, and
  \<open>kron_matrix_MB\<close> returns the megabytes as an \<open>int\<close>.  For a PDE of six dimensions of
  level 2 and degree 8 in \<open>double\<close> the views of an element are six matrices of 32 rows
  and 8 columns; their product has \<open>2^30\<close> rows and \<open>2^18\<close> columns and needs
  \<open>2^51\<close> bytes, 2251799813 MB, which is not an \<open>int\<close>.  \<open>kron_matrix_MB\<close> returns
  \<open>INT_MIN\<close>, the assertion holds against the limit of 4000 MB, and \<open>recursive_kron\<close>
  is called: on shapes, where no operation runs out of memory, the run returns its
  vector of \<open>2^30\<close> entries.
\<close>

theorem memory_limit_check_overflows:
  "element_kron_matrices shape_ops (uniform_pde 6 6 2 8) (replicate 6 (32, 32)) get_1d_index
     [replicate 12 0] 0 = Some (replicate 6 (32, 8))
   \<and> kron_matrix_MB shape_ops Double (replicate 6 (32, 8)) = - 2147483648
   \<and> recursive_kron shape_ops (replicate 6 (32, 8)) 0 = Some (1073741824, 262144)
   \<and> wavelet_to_realspace shape_ops Double (uniform_pde 6 6 2 8) (replicate 6 (32, 32))
        get_1d_index 262144 [replicate 12 0] 4000 = Some 1073741824"
proof -
  have d: "get_dimensions (uniform_pde 6 6 2 8) = replicate 6 \<lparr>get_level = 2, get_degree = 8\<rparr>"
    by (simp add: uniform_pde_def)
  have z: "vec_zero shape_ops 1073741824 = Some 1073741824" by (simp add: shape_ops_simps)
  have r: "replicate 6 \<lparr>get_level = 2, get_degree = 8\<rparr>
             = \<lparr>get_level = 2, get_degree = 8\<rparr> # replicate 5 \<lparr>get_level = 2, get_degree = 8\<rparr>"
    by (simp add: eval_nat_numeral)
  have "wavelet_to_realspace shape_ops Double (uniform_pde 6 6 2 8) (replicate 6 (32, 32))
        get_1d_index 262144 [replicate 12 0] 4000 = Some 1073741824"
    unfolding wavelet_to_realspace_def d Let_def six_dims_prod z
    by (subst (2) r) (simp add: level2_degree8_strides table_size_def six_views_step)
  then show ?thesis
    by (simp add: six_views six_views_kron_matrix_MB six_views_recursive_kron)
qed
end
